theory Spec2Isabelle
  imports Complex_Main "HOL-Library.Monad_Syntax" "HOL-Library.Log_Nat"
begin

section \<open>Segment matching and merging (deva/inference/segment_merging.py)\<close>

text \<open>
  A shallow embedding of \<^verbatim>\<open>_get_iou\<close>, \<^verbatim>\<open>merge_by_iou\<close>, \<^verbatim>\<open>merge_by_engulf\<close> and
  \<^verbatim>\<open>match_and_merge\<close>.

  A frame is flattened to a list of pixels: a label mask is an \<open>int list\<close>, a boolean mask a
  \<open>bool list\<close>. Tensor operations that need equal shapes fail on lists of different length.
  Every function that can raise returns an \<open>option\<close>; \<open>None\<close> stands for the raised
  exception (a missing dictionary key, a shape mismatch, a missing registry entry).
  Pixel counts are integers. The quotients computed from them are float32 values, as in the
  source: both operands are converted to float32, the quotient is rounded to float32, and
  a threshold it is compared with is rounded to float32 first.
\<close>

subsection \<open>Object records and the registry\<close>

text \<open>
  Modelled from the spec: the class \<^verbatim>\<open>ObjectInfo\<close> (deva/inference/object_info.py) is not
  part of the sources at hand. The spec's Object Record has an identity, a category-type
  (read by the code as \<^verbatim>\<open>isthing\<close>, one of \<^verbatim>\<open>None\<close>, \<^verbatim>\<open>False\<close>, \<^verbatim>\<open>True\<close>, that is
  Unknown, Stuff, Thing), a confidence and a staleness counter. Records used as dictionary
  keys are compared by identity.
\<close>

record ObjectInfo =
  obj_id :: int
  isthing :: "bool option"
  score :: rat
  poke_count :: nat

text \<open>
  Modelled from the spec: \<^verbatim>\<open>poke\<close> increments the staleness counter, \<^verbatim>\<open>unpoke\<close> resets it to
  zero.
\<close>

definition poke :: "ObjectInfo \<Rightarrow> ObjectInfo" where
  "poke obj = obj\<lparr>poke_count := poke_count obj + 1\<rparr>"

definition unpoke :: "ObjectInfo \<Rightarrow> ObjectInfo" where
  "unpoke obj = obj\<lparr>poke_count := 0\<rparr>"

text \<open>
  Modelled from the spec: \<^verbatim>\<open>ObjectInfo.merge\<close> updates the confidence by a deterministic policy
  that the spec leaves open (keep the maximum, or keep the latest). The policy is the
  parameter \<open>pol\<close>; identity, category-type and staleness are not touched by it.
\<close>

definition merge :: "(rat \<Rightarrow> rat \<Rightarrow> rat) \<Rightarrow> ObjectInfo \<Rightarrow> ObjectInfo \<Rightarrow> ObjectInfo" where
  "merge pol obj other = obj\<lparr>score := pol (score obj) (score other)\<rparr>"

text \<open>
  Modelled from the spec: the class \<^verbatim>\<open>ObjectManager\<close> (deva/inference/object_manager.py) is
  not part of the sources at hand. The spec's Object Registry owns the insertion-ordered
  mapping from Object Records to temp indices and the collection of all identities ever
  created.
\<close>

record ObjectManager =
  obj_to_tmp_id :: "(ObjectInfo \<times> nat) list"
  all_historical_object_ids :: "int list"

text \<open>
  Modelled from the spec: a new object gets a freshly allocated identity that was never used
  before (here the successor of the largest identity ever assigned), the next temp index,
  staleness zero, and the candidate's category-type and confidence. The call returns the temp
  indices and the identities of the objects it was given.
\<close>

definition fresh_id :: "int list \<Rightarrow> int" where
  "fresh_id ids = fold max ids 0 + 1"

definition add_new_objects :: "ObjectManager \<Rightarrow> ObjectInfo \<Rightarrow> ObjectManager \<times> nat list \<times> int list" where
  "add_new_objects om obj =
     (let new_id = fresh_id (all_historical_object_ids om);
          new_obj = obj\<lparr>obj_id := new_id, poke_count := 0\<rparr>;
          new_tmp_id = length (obj_to_tmp_id om) + 1
      in (om\<lparr>obj_to_tmp_id := obj_to_tmp_id om @ [(new_obj, new_tmp_id)],
              all_historical_object_ids := all_historical_object_ids om @ [new_id]\<rparr>,
          [new_tmp_id], [new_id]))"

text \<open>
  Modelled from the spec: lookup of the registry's record with a given identity. The methods
  called on the result mutate the record that the registry holds, which \<open>update_object\<close>
  writes out.
\<close>

fun find_object_by_id :: "ObjectManager \<Rightarrow> int \<Rightarrow> ObjectInfo option" where
  "find_object_by_id om i = map_option fst (find (\<lambda>(obj, tmp). obj_id obj = i) (obj_to_tmp_id om))"

definition update_object :: "ObjectManager \<Rightarrow> int \<Rightarrow> (ObjectInfo \<Rightarrow> ObjectInfo) \<Rightarrow> ObjectManager" where
  "update_object om i f =
     om\<lparr>obj_to_tmp_id := map (\<lambda>(obj, tmp). if obj_id obj = i then (f obj, tmp) else (obj, tmp))
                              (obj_to_tmp_id om)\<rparr>"

subsection \<open>Dictionaries keyed by object records\<close>

text \<open>
  A Python dictionary is an association list in insertion order. Assigning to a key that is
  present replaces the value and keeps the key's position; a new key goes to the end.
\<close>

fun dict_get :: "(ObjectInfo \<times> 'v) list \<Rightarrow> ObjectInfo \<Rightarrow> 'v option" where
  "dict_get [] k = None"
| "dict_get ((k', v) # d) k = (if obj_id k' = obj_id k then Some v else dict_get d k)"

fun dict_mem :: "(ObjectInfo \<times> 'v) list \<Rightarrow> ObjectInfo \<Rightarrow> bool" where
  "dict_mem [] k = False"
| "dict_mem ((k', v) # d) k = (obj_id k' = obj_id k \<or> dict_mem d k)"

fun dict_set :: "(ObjectInfo \<times> 'v) list \<Rightarrow> ObjectInfo \<Rightarrow> 'v \<Rightarrow> (ObjectInfo \<times> 'v) list" where
  "dict_set [] k v = [(k, v)]"
| "dict_set ((k', v') # d) k v =
     (if obj_id k' = obj_id k then (k', v) # d else (k', v') # dict_set d k v)"

text \<open>The keys of \<^verbatim>\<open>matched_area\<close> are pairs of an object record and the flag \<^verbatim>\<open>is_new\<close>.\<close>

fun area_set :: "((ObjectInfo \<times> bool) \<times> int) list \<Rightarrow> ObjectInfo \<times> bool \<Rightarrow> int
                 \<Rightarrow> ((ObjectInfo \<times> bool) \<times> int) list" where
  "area_set [] k a = [(k, a)]"
| "area_set ((k', a') # d) k a =
     (if obj_id (fst k') = obj_id (fst k) \<and> snd k' = snd k then (k', a) # d
      else (k', a') # area_set d k a)"

subsection \<open>Mask algebra\<close>

definition mask_eq :: "int list \<Rightarrow> int \<Rightarrow> bool list" where
  "mask_eq label_mask c = map (\<lambda>v. v = c) label_mask"

definition mask_sum :: "bool list \<Rightarrow> int" where
  "mask_sum m = int (length (filter (\<lambda>b. b) m))"

definition mask_mul :: "bool list \<Rightarrow> bool list \<Rightarrow> bool list option" where
  "mask_mul m1 m2 = (if length m1 = length m2 then Some (map2 (\<and>) m1 m2) else None)"

text \<open>\<^verbatim>\<open>merged_mask[m] = c\<close>: the pixels selected by the boolean mask take the value \<open>c\<close>.\<close>

definition mask_assign :: "int list \<Rightarrow> bool list \<Rightarrow> int \<Rightarrow> int list option" where
  "mask_assign merged m c =
     (if length m = length merged then Some (map2 (\<lambda>b v. if b then c else v) m merged) else None)"

subsection \<open>Single-precision floating point\<close>

text \<open>
  A float32 value is a rational number, an infinity or NaN. \<open>f32\<close> rounds a rational to the
  nearest float32 (ties to the even significand): 24 significant bits, exponents from -126
  (below, the spacing stays at 2 to the -149) to 127, infinity from 2 to the 128 on. Signed
  zeros are not told apart.
\<close>

datatype float32 = Finite rat | PosInf | NegInf | NaN

definition pow2 :: "int \<Rightarrow> rat" where
  "pow2 e = 2 powi e"

definition rne :: "rat \<Rightarrow> int" where
  "rne x = (let f = \<lfloor>x\<rfloor>; r = x - of_int f
            in if r < 1 / 2 then f else if 1 / 2 < r then f + 1
               else if even f then f else f + 1)"

text \<open>The binary exponent of a positive rational: the largest \<open>e\<close> with \<open>pow2 e \<le> x\<close>.\<close>

definition ilog2 :: "rat \<Rightarrow> int" where
  "ilog2 x = (let (p, q) = quotient_of x; d = bitlen p - bitlen q
              in if pow2 d \<le> x then d else d - 1)"

definition f32 :: "rat \<Rightarrow> float32" where
  "f32 x =
     (if x = 0 then Finite 0
      else
        let a = \<bar>x\<bar>;
            e = max (ilog2 a) (- 126);
            ulp = pow2 (e - 23);
            y = of_int (rne (a / ulp)) * ulp
        in if pow2 128 \<le> y then (if 0 < x then PosInf else NegInf)
           else Finite (if 0 < x then y else - y))"

fun f32_div :: "float32 \<Rightarrow> float32 \<Rightarrow> float32" where
  "f32_div (Finite x) (Finite y) =
     (if y = 0 then (if 0 < x then PosInf else if x < 0 then NegInf else NaN) else f32 (x / y))"
| "f32_div PosInf (Finite y) = (if y < 0 then NegInf else PosInf)"
| "f32_div NegInf (Finite y) = (if y < 0 then PosInf else NegInf)"
| "f32_div (Finite x) PosInf = Finite 0"
| "f32_div (Finite x) NegInf = Finite 0"
| "f32_div _ _ = NaN"

text \<open>\<open>f32_gt a b\<close> is the comparison \<^verbatim>\<open>a > b\<close>; it is false when either side is NaN.\<close>

fun f32_gt :: "float32 \<Rightarrow> float32 \<Rightarrow> bool" where
  "f32_gt (Finite x) (Finite y) = (y < x)"
| "f32_gt PosInf (Finite y) = True"
| "f32_gt PosInf NegInf = True"
| "f32_gt (Finite x) NegInf = True"
| "f32_gt _ _ = False"

text \<open>
  The division of two integer tensors: both are converted to float32 and divided there. A
  zero divisor gives an infinity (or NaN for a zero dividend) and raises nothing.
\<close>

definition true_div :: "int \<Rightarrow> int \<Rightarrow> float32" where
  "true_div a b = f32_div (f32 (of_int a)) (f32 (of_int b))"

text \<open>
  \<^verbatim>\<open>_get_iou\<close>. The test \<^verbatim>\<open>intersection < 1e-3\<close> on the integer count is written exactly; it
  holds for the count zero only, in float32 as well.
\<close>

definition get_iou :: "bool list \<Rightarrow> bool list \<Rightarrow> int \<Rightarrow> int
                       \<Rightarrow> (float32 \<times> int option \<times> int option) option" where
  "get_iou m1 m2 m1_sum m2_sum =
     do {
       prod \<leftarrow> mask_mul m1 m2;
       let intersection = mask_sum prod;
       if (of_int intersection :: rat) < 1 / 1000 then Some (Finite 0, None, None)
       else
         let uni = m1_sum + m2_sum - intersection
         in Some (true_div intersection uni, Some intersection, Some uni)
     }"

subsection \<open>Matching\<close>

text \<open>The four dictionaries that \<^verbatim>\<open>match_and_merge\<close> hands to the merge functions.\<close>

record tables =
  our_masks :: "(ObjectInfo \<times> bool list) list"
  new_masks :: "(ObjectInfo \<times> bool list) list"
  our_sums :: "(ObjectInfo \<times> int) list"
  new_sums :: "(ObjectInfo \<times> int) list"

text \<open>The local variables \<^verbatim>\<open>our_to_new_matching\<close>, \<^verbatim>\<open>matched_area\<close>, \<^verbatim>\<open>new_objects\<close>.\<close>

record matching =
  our_to_new_matching :: "(ObjectInfo \<times> ObjectInfo) list"
  matched_area :: "((ObjectInfo \<times> bool) \<times> int) list"
  new_objects :: "ObjectInfo list"

definition empty_matching :: matching where
  "empty_matching = \<lparr>our_to_new_matching = [], matched_area = [], new_objects = []\<rparr>"

text \<open>
  The IoU of a candidate with an existing object, from the dictionaries, in the order in
  which the source evaluates the four lookups.
\<close>

definition pair_iou :: "tables \<Rightarrow> ObjectInfo \<Rightarrow> ObjectInfo
                        \<Rightarrow> (float32 \<times> int option \<times> int option) option" where
  "pair_iou t new_obj our_obj =
     do {
       m_new \<leftarrow> dict_get (new_masks t) new_obj;
       m_our \<leftarrow> dict_get (our_masks t) our_obj;
       s_new \<leftarrow> dict_get (new_sums t) new_obj;
       s_our \<leftarrow> dict_get (our_sums t) our_obj;
       get_iou m_new m_our s_new s_our
     }"

text \<open>
  The inner loop of \<^verbatim>\<open>merge_by_iou\<close> over the registry's objects: \<open>Some (Some (our_obj, uni))\<close>
  when the loop breaks at a match, \<open>Some None\<close> when it runs to its \<^verbatim>\<open>else\<close> branch. An area
  of \<^verbatim>\<open>None\<close> cannot be ordered by the later sort; the model fails where it would be stored.
\<close>

fun iou_scan :: "tables \<Rightarrow> bool option \<Rightarrow> (ObjectInfo \<times> ObjectInfo) list \<Rightarrow> ObjectInfo
                 \<Rightarrow> ObjectInfo list \<Rightarrow> (ObjectInfo \<times> int) option option" where
  "iou_scan t isthing_status m new_obj [] = Some None"
| "iou_scan t isthing_status m new_obj (our_obj # rest) =
     (if isthing our_obj \<noteq> isthing_status \<or> dict_mem m our_obj
      then iou_scan t isthing_status m new_obj rest
      else do {
        (iou, _, uni) \<leftarrow> pair_iou t new_obj our_obj;
        if f32_gt iou (Finite (1 / 2))
        then (case uni of Some u \<Rightarrow> Some (Some (our_obj, u)) | None \<Rightarrow> None)
        else iou_scan t isthing_status m new_obj rest
      })"

text \<open>
  What the first loop records for a candidate: a match (the matching and the union area under
  the existing object's key), or a new object (the candidate and its own pixel count).
\<close>

definition add_match :: "matching \<Rightarrow> ObjectInfo \<Rightarrow> ObjectInfo \<Rightarrow> int \<Rightarrow> matching" where
  "add_match s our_obj new_obj uni =
     s\<lparr>our_to_new_matching := dict_set (our_to_new_matching s) our_obj new_obj,
       matched_area := area_set (matched_area s) (our_obj, False) uni\<rparr>"

definition add_new :: "tables \<Rightarrow> matching \<Rightarrow> ObjectInfo \<Rightarrow> matching option" where
  "add_new t s new_obj =
     do {
       a \<leftarrow> dict_get (new_sums t) new_obj;
       Some (s\<lparr>new_objects := new_objects s @ [new_obj],
               matched_area := area_set (matched_area s) (new_obj, True) a\<rparr>)
     }"

text \<open>The first loop of \<^verbatim>\<open>merge_by_iou\<close>, over the candidates.\<close>

fun iou_match :: "tables \<Rightarrow> bool option \<Rightarrow> ObjectInfo list \<Rightarrow> ObjectInfo list \<Rightarrow> matching
                  \<Rightarrow> matching option" where
  "iou_match t isthing_status objs [] s = Some s"
| "iou_match t isthing_status objs (new_obj # rest) s =
     (if isthing new_obj \<noteq> isthing_status then iou_match t isthing_status objs rest s
      else do {
        r \<leftarrow> iou_scan t isthing_status (our_to_new_matching s) new_obj objs;
        s' \<leftarrow> (case r of
                Some (our_obj, uni) \<Rightarrow> Some (add_match s our_obj new_obj uni)
              | None \<Rightarrow> add_new t s new_obj);
        iou_match t isthing_status objs rest s'
      })"

text \<open>
  The inner loop of \<^verbatim>\<open>merge_by_engulf\<close>. Objects that are matched already are scanned as
  well. The result tells whether the loop broke at a match, broke to drop the candidate
  (\<^verbatim>\<open>add_this_obj = False\<close> without a match), or ended with \<^verbatim>\<open>add_this_obj\<close> still true.
\<close>

datatype engulf_outcome = Match ObjectInfo int | Drop | Add

fun engulf_scan :: "tables \<Rightarrow> bool option \<Rightarrow> rat \<Rightarrow> ObjectInfo \<Rightarrow> ObjectInfo list
                    \<Rightarrow> engulf_outcome option" where
  "engulf_scan t isthing_status engulf_threshold new_obj [] = Some Add"
| "engulf_scan t isthing_status engulf_threshold new_obj (our_obj # rest) =
     (if isthing our_obj \<noteq> isthing_status
      then engulf_scan t isthing_status engulf_threshold new_obj rest
      else do {
        (iou, intersection, uni) \<leftarrow> pair_iou t new_obj our_obj;
        if f32_gt iou (Finite (1 / 2))
        then (case uni of Some u \<Rightarrow> Some (Match our_obj u) | None \<Rightarrow> None)
        else if f32_gt iou (Finite 0)
        then do {
          i \<leftarrow> intersection;
          s_new \<leftarrow> dict_get (new_sums t) new_obj;
          if f32_gt (true_div i s_new) (f32 engulf_threshold) then Some Drop
          else engulf_scan t isthing_status engulf_threshold new_obj rest
        }
        else engulf_scan t isthing_status engulf_threshold new_obj rest
      })"

text \<open>The first loop of \<^verbatim>\<open>merge_by_engulf\<close>, over the candidates.\<close>

fun engulf_match :: "tables \<Rightarrow> bool option \<Rightarrow> rat \<Rightarrow> ObjectInfo list \<Rightarrow> ObjectInfo list
                     \<Rightarrow> matching \<Rightarrow> matching option" where
  "engulf_match t isthing_status engulf_threshold objs [] s = Some s"
| "engulf_match t isthing_status engulf_threshold objs (new_obj # rest) s =
     (if isthing new_obj \<noteq> isthing_status
      then engulf_match t isthing_status engulf_threshold objs rest s
      else do {
        r \<leftarrow> engulf_scan t isthing_status engulf_threshold new_obj objs;
        s' \<leftarrow> (case r of
                Match our_obj uni \<Rightarrow> Some (add_match s our_obj new_obj uni)
              | Drop \<Rightarrow> Some s
              | Add \<Rightarrow> add_new t s new_obj);
        engulf_match t isthing_status engulf_threshold objs rest s'
      })"

text \<open>
  The second loop of both merge functions: every object of the partition that no candidate
  matched enters \<^verbatim>\<open>matched_area\<close> with its own pixel count.
\<close>

fun carry_over :: "tables \<Rightarrow> bool option \<Rightarrow> ObjectInfo list \<Rightarrow> matching \<Rightarrow> matching option" where
  "carry_over t isthing_status [] s = Some s"
| "carry_over t isthing_status (our_obj # rest) s =
     (if isthing our_obj \<noteq> isthing_status \<or> dict_mem (our_to_new_matching s) our_obj
      then carry_over t isthing_status rest s
      else do {
        a \<leftarrow> dict_get (our_sums t) our_obj;
        carry_over t isthing_status rest
          (s\<lparr>matched_area := area_set (matched_area s) (our_obj, False) a\<rparr>)
      })"

subsection \<open>Rendering\<close>

text \<open>
  \<^verbatim>\<open>sorted(matched_area.items(), key=lambda x: x[1], reverse=True)\<close>: a stable sort by
  descending area; entries of equal area stay in insertion order.
\<close>

definition sorted_by_area :: "((ObjectInfo \<times> bool) \<times> int) list \<Rightarrow> ((ObjectInfo \<times> bool) \<times> int) list" where
  "sorted_by_area area = sort_key (\<lambda>x. - snd x) area"

text \<open>One iteration of the rendering loop, on the output mask and the registry.\<close>

definition render_entry :: "(rat \<Rightarrow> rat \<Rightarrow> rat) \<Rightarrow> tables \<Rightarrow> (ObjectInfo \<times> ObjectInfo) list
                            \<Rightarrow> (ObjectInfo \<times> bool) \<times> int \<Rightarrow> int list \<times> ObjectManager
                            \<Rightarrow> (int list \<times> ObjectManager) option" where
  "render_entry pol t m entry state =
     (let (obj, is_new) = fst entry; (merged_mask, om) = state in
      if is_new then
        (let (om', tmp_ids, corresponding_obj_ids) = add_new_objects om obj in
         do {
           bmask \<leftarrow> dict_get (new_masks t) obj;
           c \<leftarrow> (case corresponding_obj_ids of [] \<Rightarrow> None | c # _ \<Rightarrow> Some c);
           merged_mask' \<leftarrow> mask_assign merged_mask bmask c;
           Some (merged_mask', om')
         })
      else if dict_mem m obj then
        do {
          new_obj \<leftarrow> dict_get m obj;
          bmask \<leftarrow> dict_get (our_masks t) obj;
          merged_mask1 \<leftarrow> mask_assign merged_mask bmask (obj_id obj);
          bmask' \<leftarrow> dict_get (new_masks t) new_obj;
          merged_mask2 \<leftarrow> mask_assign merged_mask1 bmask' (obj_id obj);
          _ \<leftarrow> find_object_by_id om (obj_id obj);
          Some (merged_mask2, update_object om (obj_id obj) (\<lambda>x. unpoke (merge pol x new_obj)))
        }
      else
        do {
          bmask \<leftarrow> dict_get (our_masks t) obj;
          merged_mask' \<leftarrow> mask_assign merged_mask bmask (obj_id obj);
          _ \<leftarrow> find_object_by_id om (obj_id obj);
          Some (merged_mask', update_object om (obj_id obj) poke)
        })"

fun render :: "(rat \<Rightarrow> rat \<Rightarrow> rat) \<Rightarrow> tables \<Rightarrow> (ObjectInfo \<times> ObjectInfo) list
               \<Rightarrow> ((ObjectInfo \<times> bool) \<times> int) list \<Rightarrow> int list \<times> ObjectManager
               \<Rightarrow> (int list \<times> ObjectManager) option" where
  "render pol t m [] state = Some state"
| "render pol t m (entry # rest) state =
     do { state' \<leftarrow> render_entry pol t m entry state; render pol t m rest state' }"

subsection \<open>The merge functions\<close>

definition merge_by_iou :: "(rat \<Rightarrow> rat \<Rightarrow> rat) \<Rightarrow> tables \<Rightarrow> int list \<Rightarrow> ObjectManager
                            \<Rightarrow> ObjectInfo list \<Rightarrow> bool option
                            \<Rightarrow> (int list \<times> ObjectManager) option" where
  "merge_by_iou pol t merged_mask object_manager new_segments_info isthing_status =
     do {
       s1 \<leftarrow> iou_match t isthing_status (map fst (obj_to_tmp_id object_manager))
               new_segments_info empty_matching;
       s2 \<leftarrow> carry_over t isthing_status (map fst (obj_to_tmp_id object_manager)) s1;
       render pol t (our_to_new_matching s2) (sorted_by_area (matched_area s2))
         (merged_mask, object_manager)
     }"

definition merge_by_engulf :: "(rat \<Rightarrow> rat \<Rightarrow> rat) \<Rightarrow> tables \<Rightarrow> int list \<Rightarrow> ObjectManager
                               \<Rightarrow> ObjectInfo list \<Rightarrow> bool option \<Rightarrow> rat
                               \<Rightarrow> (int list \<times> ObjectManager) option" where
  "merge_by_engulf pol t merged_mask object_manager new_segments_info isthing_status
       engulf_threshold =
     do {
       s1 \<leftarrow> engulf_match t isthing_status engulf_threshold
               (map fst (obj_to_tmp_id object_manager)) new_segments_info empty_matching;
       s2 \<leftarrow> carry_over t isthing_status (map fst (obj_to_tmp_id object_manager)) s1;
       render pol t (our_to_new_matching s2) (sorted_by_area (matched_area s2))
         (merged_mask, object_manager)
     }"

subsection \<open>The orchestrator\<close>

definition lower_char :: "char \<Rightarrow> char" where
  "lower_char c =
     (let n = (of_char c :: nat) in if 65 \<le> n \<and> n \<le> 90 then char_of (n + 32) else c)"

definition lower :: "string \<Rightarrow> string" where
  "lower s = map lower_char s"

definition match_isthing :: "bool option list" where
  "match_isthing = [None, Some False, Some True]"

definition cap_warning :: string where
  "cap_warning = ''Number of objects exceeded maximum (--max_num_objects); discarding new objects''"

text \<open>The loop over \<^verbatim>\<open>match_isthing\<close>. A mode other than the two known ones runs neither branch.\<close>

fun merge_partitions :: "(rat \<Rightarrow> rat \<Rightarrow> rat) \<Rightarrow> tables \<Rightarrow> ObjectInfo list \<Rightarrow> string \<Rightarrow> rat
                         \<Rightarrow> bool option list \<Rightarrow> int list \<times> ObjectManager
                         \<Rightarrow> (int list \<times> ObjectManager) option" where
  "merge_partitions pol t new_segments_info mode engulf_threshold [] state = Some state"
| "merge_partitions pol t new_segments_info mode engulf_threshold (isthing_status # rest) state =
     do {
       state' \<leftarrow>
         (if mode = ''iou''
          then merge_by_iou pol t (fst state) (snd state) new_segments_info isthing_status
          else if mode = ''engulf''
          then merge_by_engulf pol t (fst state) (snd state) new_segments_info isthing_status
                 engulf_threshold
          else Some state);
       merge_partitions pol t new_segments_info mode engulf_threshold rest state'
     }"

text \<open>
  The one-hot dictionaries of \<^verbatim>\<open>match_and_merge\<close>: the previous mask split by temp index, the
  new mask split by candidate identity, and the pixel counts of a dictionary of masks. The
  source computes \<^verbatim>\<open>our_sums\<close> and \<^verbatim>\<open>new_sums\<close> by a doubled comprehension that assigns every
  key its pixel count once per key of the dictionary; the result is the dictionary of pixel
  counts.
\<close>

definition our_masks_of :: "int list \<Rightarrow> ObjectManager \<Rightarrow> (ObjectInfo \<times> bool list) list" where
  "our_masks_of our_mask object_manager =
     map (\<lambda>(obj, tmp). (obj, mask_eq our_mask (int tmp))) (obj_to_tmp_id object_manager)"

definition new_masks_of :: "int list \<Rightarrow> ObjectInfo list \<Rightarrow> (ObjectInfo \<times> bool list) list" where
  "new_masks_of new_mask new_segments_info =
     fold (\<lambda>obj d. dict_set d obj (mask_eq new_mask (obj_id obj))) new_segments_info []"

definition mask_sums :: "(ObjectInfo \<times> bool list) list \<Rightarrow> (ObjectInfo \<times> int) list" where
  "mask_sums masks = map (\<lambda>(obj, m). (obj, mask_sum m)) masks"

text \<open>The population cap: the test of lines 182-183.\<close>

definition cap_exceeded :: "ObjectManager \<Rightarrow> ObjectInfo list \<Rightarrow> int \<Rightarrow> bool" where
  "cap_exceeded object_manager new_segments_info max_num_objects =
     (max_num_objects > 0 \<and>
      int (length (all_historical_object_ids object_manager))
        + int (length new_segments_info) > max_num_objects)"

text \<open>
  \<^verbatim>\<open>match_and_merge\<close> up to the call of \<^verbatim>\<open>make_one_hot\<close>: the accumulated mask, whose pixel
  values are object identities, the registry, and the warnings emitted.
\<close>

definition merge_frame :: "(rat \<Rightarrow> rat \<Rightarrow> rat) \<Rightarrow> int list \<Rightarrow> int list \<Rightarrow> ObjectManager
                           \<Rightarrow> ObjectInfo list \<Rightarrow> string \<Rightarrow> int \<Rightarrow> rat
                           \<Rightarrow> ((int list \<times> ObjectManager) \<times> string list) option" where
  "merge_frame pol our_mask new_mask object_manager new_segments_info mode max_num_objects
       engulf_threshold =
     (let mode = lower mode;
          our_masks0 = our_masks_of our_mask object_manager;
          new_masks0 = new_masks_of new_mask new_segments_info;
          exceeded = cap_exceeded object_manager new_segments_info max_num_objects;
          warnings = (if exceeded then [cap_warning] else []);
          new_masks1 = (if exceeded then [] else new_masks0);
          new_segments_info1 = (if exceeded then [] else new_segments_info);
          t = \<lparr>our_masks = our_masks0, new_masks = new_masks1,
               our_sums = mask_sums our_masks0, new_sums = mask_sums new_masks1\<rparr>;
          merged_mask = replicate (length our_mask) 0
      in map_option (\<lambda>state. (state, warnings))
           (merge_partitions pol t new_segments_info1 mode engulf_threshold match_isthing
              (merged_mask, object_manager)))"

text \<open>
  Modelled from the spec: \<^verbatim>\<open>ObjectManager.make_one_hot\<close> is not part of the sources at hand.
  It relabels the accumulated mask through the registry; it is the parameter
  \<open>make_one_hot\<close>, applied to the registry and the mask that the merge passes leave.
\<close>

definition match_and_merge :: "(ObjectManager \<Rightarrow> int list \<Rightarrow> 'r) \<Rightarrow> (rat \<Rightarrow> rat \<Rightarrow> rat)
                               \<Rightarrow> int list \<Rightarrow> int list \<Rightarrow> ObjectManager \<Rightarrow> ObjectInfo list
                               \<Rightarrow> string \<Rightarrow> int \<Rightarrow> rat \<Rightarrow> ('r \<times> string list) option" where
  "match_and_merge make_one_hot pol our_mask new_mask object_manager new_segments_info mode
       max_num_objects engulf_threshold =
     map_option (\<lambda>((merged_mask, om), warnings). (make_one_hot om merged_mask, warnings))
       (merge_frame pol our_mask new_mask object_manager new_segments_info mode max_num_objects
          engulf_threshold)"

subsection \<open>Example inputs\<close>

definition ex_obj :: ObjectInfo where
  "ex_obj = \<lparr>obj_id = 7, isthing = Some True, score = 1 / 2, poke_count = 0\<rparr>"

definition ex_cand :: ObjectInfo where
  "ex_cand = \<lparr>obj_id = 3, isthing = Some True, score = 1 / 2, poke_count = 0\<rparr>"

definition ex_om :: ObjectManager where
  "ex_om = \<lparr>obj_to_tmp_id = [(ex_obj, 1)], all_historical_object_ids = [7]\<rparr>"

subsection \<open>Notions used in the statements\<close>

text \<open>
  The key of an entry of \<^verbatim>\<open>matched_area\<close> as the dictionary compares it (identity and flag),
  and the value that \<^verbatim>\<open>matched_area\<close> holds for an identity and a flag, if any.
\<close>

definition key_of :: "ObjectInfo \<times> bool \<Rightarrow> int \<times> bool" where
  "key_of k = (obj_id (fst k), snd k)"

definition area_of :: "((ObjectInfo \<times> bool) \<times> int) list \<Rightarrow> int \<Rightarrow> bool \<Rightarrow> int option" where
  "area_of d i f = map_of (map (\<lambda>(k, a). (key_of k, a)) d) (i, f)"

text \<open>
  On the masks themselves: the number of pixels in both masks, the exact ratio of
  intersection to union, the exact fraction of the candidate's own area that the
  intersection covers, and the two values as \<^verbatim>\<open>_get_iou\<close> and line 119 compute them in
  float32.
\<close>

definition inter_count :: "bool list \<Rightarrow> bool list \<Rightarrow> int" where
  "inter_count m1 m2 = mask_sum (map2 (\<and>) m1 m2)"

definition mask_iou :: "bool list \<Rightarrow> bool list \<Rightarrow> rat" where
  "mask_iou m1 m2 =
     of_int (inter_count m1 m2) / of_int (mask_sum m1 + mask_sum m2 - inter_count m1 m2)"

definition coverage :: "bool list \<Rightarrow> bool list \<Rightarrow> rat" where
  "coverage m_new m_our = of_int (inter_count m_new m_our) / of_int (mask_sum m_new)"

definition mask_iou32 :: "bool list \<Rightarrow> bool list \<Rightarrow> float32" where
  "mask_iou32 m1 m2 =
     (if inter_count m1 m2 = 0 then Finite 0
      else true_div (inter_count m1 m2) (mask_sum m1 + mask_sum m2 - inter_count m1 m2))"

definition coverage32 :: "bool list \<Rightarrow> bool list \<Rightarrow> float32" where
  "coverage32 m_new m_our = true_div (inter_count m_new m_our) (mask_sum m_new)"

text \<open>
  The dictionaries hold, for a candidate and an existing object, two masks of one shape and
  their pixel counts, as \<^verbatim>\<open>match_and_merge\<close> builds them; the number of pixels fits a 64-bit
  integer.
\<close>

definition consistent :: "tables \<Rightarrow> ObjectInfo \<Rightarrow> ObjectInfo \<Rightarrow> bool list \<Rightarrow> bool list \<Rightarrow> bool" where
  "consistent t new_obj our_obj m_new m_our =
     (dict_get (new_masks t) new_obj = Some m_new \<and> dict_get (our_masks t) our_obj = Some m_our \<and>
      dict_get (new_sums t) new_obj = Some (mask_sum m_new) \<and>
      dict_get (our_sums t) our_obj = Some (mask_sum m_our) \<and>
      length m_new = length m_our \<and> int (length m_new) < 2 ^ 63)"

text \<open>
  The IoU mode's test on an existing object, for a candidate: the object is of the pass's
  category-type, it is not matched yet, and the IoU that \<^verbatim>\<open>_get_iou\<close> computes from the
  dictionaries exceeds 0.5 in the comparison of line 54.
\<close>

definition qualifies :: "tables \<Rightarrow> bool option \<Rightarrow> (ObjectInfo \<times> ObjectInfo) list \<Rightarrow> ObjectInfo
                         \<Rightarrow> ObjectInfo \<Rightarrow> bool" where
  "qualifies t isthing_status m new_obj our_obj =
     (isthing our_obj = isthing_status \<and> \<not> dict_mem m our_obj \<and>
      (case pair_iou t new_obj our_obj of
         Some (iou, _, _) \<Rightarrow> f32_gt iou (Finite (1 / 2))
       | None \<Rightarrow> False))"

definition ex_obj2 :: ObjectInfo where
  "ex_obj2 = \<lparr>obj_id = 9, isthing = Some True, score = 1 / 3, poke_count = 2\<rparr>"

text \<open>Two objects overlap the candidate, with IoU 3/4 and 1.\<close>

definition ex_tables2 :: tables where
  "ex_tables2 =
     \<lparr>our_masks = [(ex_obj2, [True, True, True, True]), (ex_obj, [True, True, True, False])],
      new_masks = [(ex_cand, [True, True, True, False])],
      our_sums = [(ex_obj2, 4), (ex_obj, 3)], new_sums = [(ex_cand, 3)]\<rparr>"

text \<open>One object overlaps the candidate, with IoU 1/4.\<close>

definition ex_tables4 :: tables where
  "ex_tables4 =
     \<lparr>our_masks = [(ex_obj, [True, True, True, False])],
      new_masks = [(ex_cand, [False, False, True, True])],
      our_sums = [(ex_obj, 3)], new_sums = [(ex_cand, 2)]\<rparr>"

text \<open>
  A frame of 33554433 pixels: the candidate covers all of it, the object its first 16777217
  pixels.
\<close>

definition big_new :: "bool list" where
  "big_new = replicate 33554433 True"

definition big_our :: "bool list" where
  "big_our = replicate 16777217 True @ replicate 16777216 False"

definition big_tables :: tables where
  "big_tables =
     \<lparr>our_masks = [(ex_obj, big_our)], new_masks = [(ex_cand, big_new)],
      our_sums = [(ex_obj, 16777217)], new_sums = [(ex_cand, 33554433)]\<rparr>"

text \<open>
  The state of a matching loop stays within the pass's category-type: every pair of the
  matching joins an existing object and a candidate of that category-type, every key of
  \<^verbatim>\<open>matched_area\<close> is an existing object or, under the new-object flag, a candidate of that
  category-type, and so is every entry of \<^verbatim>\<open>new_objects\<close>.
\<close>

definition in_partition :: "bool option \<Rightarrow> ObjectInfo list \<Rightarrow> ObjectInfo list \<Rightarrow> matching \<Rightarrow> bool" where
  "in_partition st objs segs s =
     ((\<forall>(our_obj, new_obj) \<in> set (our_to_new_matching s).
         our_obj \<in> set objs \<and> isthing our_obj = st \<and> new_obj \<in> set segs \<and> isthing new_obj = st) \<and>
      (\<forall>((k, is_new), a) \<in> set (matched_area s).
         isthing k = st \<and> (if is_new then k \<in> set segs else k \<in> set objs)) \<and>
      (\<forall>new_obj \<in> set (new_objects s). new_obj \<in> set segs \<and> isthing new_obj = st))"

text \<open>The identities of the registry's objects of one category-type, in registry order.\<close>

definition cat_ids :: "bool option \<Rightarrow> ObjectManager \<Rightarrow> int list" where
  "cat_ids st om = map obj_id (filter (\<lambda>obj. isthing obj = st) (map fst (obj_to_tmp_id om)))"

text \<open>
  The engulf mode's condition on a candidate, for a list of existing objects: with every
  object of the candidate's category-type the IoU computed in float32 is not above 0.5,
  and with one of them the fraction of the candidate's own area that the intersection
  covers, computed in float32, is above the threshold rounded to float32.
\<close>

definition engulfed :: "tables \<Rightarrow> rat \<Rightarrow> ObjectInfo \<Rightarrow> ObjectInfo list \<Rightarrow> bool" where
  "engulfed t engulf_threshold new_obj objs =
     ((\<forall>our_obj \<in> set objs. isthing our_obj = isthing new_obj \<longrightarrow>
         (\<exists>m_new m_our. consistent t new_obj our_obj m_new m_our \<and>
                         \<not> f32_gt (mask_iou32 m_new m_our) (Finite (1 / 2)))) \<and>
      (\<exists>our_obj \<in> set objs. isthing our_obj = isthing new_obj \<and>
         (\<exists>m_new m_our. consistent t new_obj our_obj m_new m_our \<and>
                         f32_gt (coverage32 m_new m_our) (f32 engulf_threshold))))"

text \<open>The candidates left when a candidate is taken out of the list.\<close>

definition without :: "ObjectInfo \<Rightarrow> ObjectInfo list \<Rightarrow> ObjectInfo list" where
  "without new_obj segs =
     filter (\<lambda>x. \<not> (obj_id x = obj_id new_obj \<and> isthing x = isthing new_obj)) segs"

text \<open>The object covers four pixels of five, the candidate the first of them.\<close>

definition ex_tables3 :: tables where
  "ex_tables3 =
     \<lparr>our_masks = [(ex_obj, [True, True, True, True, False])],
      new_masks = [(ex_cand, [True, False, False, False, False])],
      our_sums = [(ex_obj, 4)], new_sums = [(ex_cand, 1)]\<rparr>"

definition ex_om_poked :: ObjectManager where
  "ex_om_poked =
     \<lparr>obj_to_tmp_id = [(ex_obj\<lparr>poke_count := 1\<rparr>, 1)], all_historical_object_ids = [7]\<rparr>"

text \<open>
  A threshold just below one third (0.33333333209..., a double), and the registry after the
  candidate of identity 3 was added to \<open>ex_om\<close> as the new object of identity 8.
\<close>

definition thr_third :: rat where
  "thr_third = 89478485 / 268435456"

definition ex_om_grown :: ObjectManager where
  "ex_om_grown =
     \<lparr>obj_to_tmp_id = [(ex_obj\<lparr>poke_count := 1\<rparr>, 1), (ex_cand\<lparr>obj_id := 8\<rparr>, 2)],
      all_historical_object_ids = [7, 8]\<rparr>"










section \<open>Properties\<close>

subsection \<open>Mask algebra\<close>

lemma map2_conj_commute: "map2 (\<and>) m1 m2 = map2 (\<and>) m2 m1"
  by (induction m1 arbitrary: m2) (case_tac m2; auto)+

lemma mask_mul_commute: "mask_mul m1 m2 = mask_mul m2 m1"
  by (auto simp: mask_mul_def map2_conj_commute)

text \<open>
  C8. The IoU computation is symmetric: swapping the two masks together with their
  precomputed sums gives the same ratio, the same intersection and the same union. This
  holds for all masks and all sums, in particular for masks with nonzero overlap and their
  correct pixel counts.
\<close>

theorem get_iou_symmetric: "get_iou a b sum_a sum_b = get_iou b a sum_b sum_a"
proof -
  have "sum_a + sum_b - i = sum_b + sum_a - i" for i by simp
  then show ?thesis
    unfolding get_iou_def mask_mul_commute[of a b] by presburger
qed

subsection \<open>Unknown mode\<close>

lemma merge_partitions_unknown_mode:
  "mode \<noteq> ''iou'' \<Longrightarrow> mode \<noteq> ''engulf'' \<Longrightarrow>
   merge_partitions pol t segs mode thr sts state = Some state"
  by (induction sts) simp_all

lemma lower_bogus: "lower ''Bogus'' = ''bogus''"
  by code_simp

text \<open>
  C3 as stated fails: a mode string that is neither \<^verbatim>\<open>iou\<close> nor \<^verbatim>\<open>engulf\<close> raises nothing.
  With the mode \<^verbatim>\<open>Bogus\<close> the call returns normally, and what it returns is an all-zero mask.
\<close>

theorem unknown_mode_counterexample:
  "match_and_merge (\<lambda>om m. (om, m)) (\<lambda>a b. b) [1, 1, 0] [0, 3, 3] ex_om [ex_cand]
     ''Bogus'' (- 1) (1 / 5)
   = Some ((ex_om, [0, 0, 0]), [])"
  by (simp add: match_and_merge_def merge_frame_def Let_def merge_partitions_unknown_mode
      lower_bogus cap_exceeded_def)

text \<open>
  C3, amended. For a mode string that is neither \<^verbatim>\<open>iou\<close> nor \<^verbatim>\<open>engulf\<close> after lowercasing, the
  call raises no error and runs no partition pass: \<^verbatim>\<open>make_one_hot\<close> receives the registry as
  it was before the call (no new identity, no change of staleness or confidence) and an
  all-zero mask, and the call returns its result. The cap warning is emitted as for any
  other mode.
\<close>

theorem unknown_mode_no_error:
  assumes "lower mode \<noteq> ''iou''" and "lower mode \<noteq> ''engulf''"
  shows "match_and_merge make_one_hot pol our_mask new_mask om segs mode max_num_objects thr =
         Some (make_one_hot om (replicate (length our_mask) 0),
               if max_num_objects > 0 \<and>
                  int (length (all_historical_object_ids om)) + int (length segs) > max_num_objects
               then [cap_warning] else [])"
  using assms
  by (simp add: match_and_merge_def merge_frame_def Let_def merge_partitions_unknown_mode
      cap_exceeded_def)

theorem unknown_mode_witness:
  "lower ''Bogus'' \<noteq> ''iou'' \<and> lower ''Bogus'' \<noteq> ''engulf'' \<and>
   match_and_merge (\<lambda>om m. (om, m)) (\<lambda>a b. b) [1, 1, 0] [0, 3, 3] ex_om [ex_cand]
     ''Bogus'' 1 (1 / 5)
   = Some ((ex_om, [0, 0, 0]), [cap_warning])"
  using unknown_mode_no_error[of "''Bogus''" "\<lambda>om m. (om, m)" "\<lambda>a b. b" "[1, 1, 0]"
      "[0, 3, 3]" ex_om "[ex_cand]" 1 "1 / 5"]
  by (simp add: lower_bogus ex_om_def)

subsection \<open>Float32 rounding\<close>

lemma pow2_pos: "0 < pow2 e"
  by (simp add: pow2_def)

lemma pow2_add: "pow2 (a + b) = pow2 a * pow2 b"
  by (simp add: pow2_def power_int_add)

lemma pow2_mono: "a \<le> b \<Longrightarrow> pow2 a \<le> pow2 b"
  by (simp add: pow2_def power_int_increasing)

lemma pow2_strict_mono: "a < b \<Longrightarrow> pow2 a < pow2 b"
  by (simp add: pow2_def power_int_strict_increasing)

lemma pow2_less_cancel: "pow2 a < pow2 b \<Longrightarrow> a < b"
  using pow2_mono[of b a] by (cases "a < b") auto

lemma pow2_nat: "pow2 (int n) = 2 ^ n"
  by (simp add: pow2_def)

lemma pow2_of_int: "0 \<le> e \<Longrightarrow> pow2 e = of_int (2 ^ nat e)"
  by (simp add: pow2_def power_int_def)

lemma bitlen_pow2_bounds:
  assumes "0 < p"
  shows "pow2 (bitlen p - 1) \<le> of_int p" and "of_int p < pow2 (bitlen p)"
proof -
  from bitlen_bounds[OF assms] have
    lo: "2 ^ nat (bitlen p - 1) \<le> p" and hi: "p < 2 ^ nat (bitlen p)" by simp_all
  have b1: "1 \<le> bitlen p" using assms by (simp add: bitlen_alt_def)
  have "pow2 (bitlen p - 1) = of_int (2 ^ nat (bitlen p - 1))"
    using b1 by (intro pow2_of_int) simp
  also have "\<dots> \<le> of_int p" using lo by (simp only: of_int_le_iff)
  finally show "pow2 (bitlen p - 1) \<le> of_int p" .
  have "(of_int p :: rat) < of_int (2 ^ nat (bitlen p))" using hi by (simp only: of_int_less_iff)
  also have "\<dots> = pow2 (bitlen p)"
    using b1 by (intro pow2_of_int[symmetric]) simp
  finally show "of_int p < pow2 (bitlen p)" .
qed

lemma ilog2_bounds:
  assumes "0 < x"
  shows "pow2 (ilog2 x) \<le> x" and "x < pow2 (ilog2 x + 1)"
proof -
  obtain p q where pq: "quotient_of x = (p, q)" by (cases "quotient_of x")
  then have q: "0 < q" and x: "x = of_int p / of_int q"
    by (simp_all add: quotient_of_denom_pos quotient_of_div)
  have p: "0 < p" using assms q x by (simp add: zero_less_divide_iff)
  define d where "d = bitlen p - bitlen q"
  note bp = bitlen_pow2_bounds[OF p] and bq = bitlen_pow2_bounds[OF q]
  have qpos: "(0 :: rat) < of_int q" using q by simp
  have "pow2 (d - 1) * of_int q < pow2 (d - 1) * pow2 (bitlen q)"
    using bq(2) pow2_pos[of "d - 1"] by simp
  also have "\<dots> = pow2 (bitlen p - 1)"
    unfolding pow2_add[symmetric] d_def by simp
  also have "\<dots> \<le> of_int p" by (rule bp(1))
  finally have lo: "pow2 (d - 1) < x"
    unfolding x using qpos by (simp add: pos_less_divide_eq)
  have "of_int p < pow2 (bitlen p)" by (rule bp(2))
  also have "\<dots> = pow2 (d + 1) * pow2 (bitlen q - 1)"
    unfolding pow2_add[symmetric] d_def by simp
  also have "\<dots> \<le> pow2 (d + 1) * of_int q"
    using bq(1) pow2_pos[of "d + 1"] by simp
  finally have hi: "x < pow2 (d + 1)"
    unfolding x using qpos by (simp add: pos_divide_less_eq)
  have il: "ilog2 x = (if pow2 d \<le> x then d else d - 1)"
    by (simp add: ilog2_def pq d_def)
  show "pow2 (ilog2 x) \<le> x" using lo by (simp add: il)
  show "x < pow2 (ilog2 x + 1)" using hi by (auto simp: il)
qed

lemma ilog2_ge: "0 < x \<Longrightarrow> pow2 k \<le> x \<Longrightarrow> k \<le> ilog2 x"
  using ilog2_bounds(2)[of x] pow2_less_cancel[of k "ilog2 x + 1"] by simp

lemma ilog2_less: "0 < x \<Longrightarrow> x < pow2 k \<Longrightarrow> ilog2 x < k"
  using ilog2_bounds(1)[of x] pow2_less_cancel[of "ilog2 x" k] by simp

lemma rne_ge: "of_int k \<le> x \<Longrightarrow> k \<le> rne x"
proof -
  assume "of_int k \<le> x"
  then have "k \<le> \<lfloor>x\<rfloor>" by (simp add: le_floor_iff)
  then show ?thesis by (auto simp: rne_def Let_def)
qed

lemma rne_le: "x \<le> of_int k \<Longrightarrow> rne x \<le> k"
proof -
  assume a: "x \<le> of_int k"
  show ?thesis
  proof (cases "x = of_int k")
    case True
    then show ?thesis by (simp add: rne_def)
  next
    case False
    with a have "x < of_int k" by simp
    then have "\<lfloor>x\<rfloor> < k" by (simp add: floor_less_iff)
    then show ?thesis by (auto simp: rne_def Let_def)
  qed
qed

lemma f32_lower:
  assumes "0 < x" and "pow2 k \<le> x" and "- 126 \<le> k"
  shows "f32 x = PosInf \<or> (\<exists>y. f32 x = Finite y \<and> pow2 k \<le> y)"
proof -
  define e where "e = ilog2 x"
  have ke: "k \<le> e" unfolding e_def using assms(1,2) by (rule ilog2_ge)
  then have emax: "max e (- 126) = e" using assms(3) by simp
  define ulp where "ulp = pow2 (e - 23)"
  define m where "m = rne (x / ulp)"
  have ulp_pos: "0 < ulp" by (simp add: ulp_def pow2_pos)
  have "pow2 e = pow2 23 * ulp"
    unfolding ulp_def pow2_add[symmetric] by simp
  moreover have "pow2 e \<le> x" unfolding e_def using assms(1) by (rule ilog2_bounds)
  ultimately have "pow2 23 \<le> x / ulp"
    using ulp_pos by (simp add: pos_le_divide_eq)
  moreover have "pow2 23 = of_int (2 ^ 23)" by (simp add: pow2_def)
  ultimately have "of_int (2 ^ 23) \<le> x / ulp" by simp
  then have "2 ^ 23 \<le> m" unfolding m_def by (rule rne_ge)
  then have "(of_int (2 ^ 23) :: rat) \<le> of_int m" by (simp only: of_int_le_iff)
  then have "pow2 23 * ulp \<le> of_int m * ulp"
    using ulp_pos by (simp add: pow2_def)
  then have "pow2 e \<le> of_int m * ulp"
    using \<open>pow2 e = pow2 23 * ulp\<close> by simp
  then have y: "pow2 k \<le> of_int m * ulp"
    using pow2_mono[OF ke] by simp
  have "f32 x = (if pow2 128 \<le> of_int m * ulp then PosInf else Finite (of_int m * ulp))"
    using assms(1) emax
    by (simp add: f32_def Let_def e_def[symmetric] ulp_def[symmetric] m_def[symmetric])
  with y show ?thesis by auto
qed

lemma f32_upper:
  assumes "0 < x" and "x \<le> pow2 k" and "- 126 \<le> k" and "k \<le> 127"
  shows "\<exists>y. f32 x = Finite y \<and> 0 \<le> y \<and> y \<le> pow2 k"
proof -
  define e where "e = max (ilog2 x) (- 126)"
  define ulp where "ulp = pow2 (e - 23)"
  define m where "m = rne (x / ulp)"
  have ulp_pos: "0 < ulp" by (simp add: ulp_def pow2_pos)
  have "ilog2 x \<le> k"
    using ilog2_bounds(1)[OF assms(1)] assms(2) pow2_less_cancel[of "ilog2 x" "k + 1"]
      pow2_strict_mono[of k "k + 1"] by simp
  then have ek: "e \<le> k" unfolding e_def using assms(3) by simp
  define j where "j = k - e + 23"
  have j: "0 \<le> j" unfolding j_def using ek by simp
  have kk: "pow2 k = pow2 j * ulp"
    unfolding ulp_def j_def pow2_add[symmetric] by simp
  then have "x / ulp \<le> pow2 j"
    using assms(2) ulp_pos by (simp add: pos_divide_le_eq)
  then have "x / ulp \<le> of_int (2 ^ nat j)"
    using pow2_of_int[OF j] by simp
  then have "m \<le> 2 ^ nat j" unfolding m_def by (rule rne_le)
  then have "(of_int m :: rat) \<le> of_int (2 ^ nat j)" by (simp only: of_int_le_iff)
  then have "of_int m * ulp \<le> pow2 j * ulp"
    using ulp_pos pow2_of_int[OF j] by simp
  then have le: "of_int m * ulp \<le> pow2 k" using kk by simp
  have "(0 :: rat) \<le> x / ulp" using assms(1) ulp_pos by simp
  then have "(of_int 0 :: rat) \<le> x / ulp" by simp
  then have "0 \<le> m" unfolding m_def by (rule rne_ge)
  then have ge: "0 \<le> of_int m * ulp" using ulp_pos by simp
  have "pow2 k < pow2 128" using assms(4) by (intro pow2_strict_mono) simp
  with le have "\<not> pow2 128 \<le> of_int m * ulp" by simp
  then have "f32 x = Finite (of_int m * ulp)"
    using assms(1)
    by (simp add: f32_def Let_def e_def[symmetric] ulp_def[symmetric] m_def[symmetric])
  with le ge show ?thesis by simp
qed

lemma f32_count:
  assumes "1 \<le> i" and "i < 2 ^ 63"
  shows "\<exists>a. f32 (of_int i) = Finite a \<and> 1 \<le> a \<and> a \<le> pow2 63"
proof -
  have pos: "(0 :: rat) < of_int i" using assms(1) by simp
  have lo: "pow2 0 \<le> of_int i" using assms(1) by (simp add: pow2_def)
  have "(of_int i :: rat) \<le> of_int (2 ^ 63)" using assms(2) by (simp only: of_int_le_iff)
  then have hi: "of_int i \<le> pow2 63" by (simp add: pow2_def)
  from f32_upper[OF pos hi] obtain a where a: "f32 (of_int i) = Finite a" "a \<le> pow2 63"
    by auto
  from f32_lower[OF pos lo] a(1) have "pow2 0 \<le> a" by auto
  with a show ?thesis by (simp add: pow2_def)
qed

lemma true_div_pos:
  assumes "1 \<le> i" and "i < 2 ^ 63" and "1 \<le> u" and "u < 2 ^ 63"
  shows "f32_gt (true_div i u) (Finite 0)"
proof -
  from f32_count[OF assms(1,2)] obtain a where a: "f32 (of_int i) = Finite a" "1 \<le> a" by auto
  from f32_count[OF assms(3,4)] obtain b where
    b: "f32 (of_int u) = Finite b" "1 \<le> b" "b \<le> pow2 63" by auto
  have bpos: "0 < b" using b(2) by simp
  have "pow2 (- 63) * b \<le> pow2 (- 63) * pow2 63"
    using b(3) pow2_pos[of "- 63"] by simp
  also have "\<dots> = 1" unfolding pow2_add[symmetric] by (simp add: pow2_def)
  also have "\<dots> \<le> a" by (rule a(2))
  finally have lo: "pow2 (- 63) \<le> a / b" using bpos by (simp add: pos_le_divide_eq)
  have pos: "0 < a / b" using a(2) bpos by simp
  have "true_div i u = f32 (a / b)"
    using a(1) b(1) bpos by (simp add: true_div_def)
  with f32_lower[OF pos lo] pow2_pos[of "- 63"] show ?thesis by auto
qed

lemma f32_nonneg:
  assumes "0 \<le> x"
  shows "f32 x = PosInf \<or> (\<exists>y. f32 x = Finite y \<and> 0 \<le> y)"
proof (cases "x = 0")
  case True
  then show ?thesis by (simp add: f32_def)
next
  case False
  with assms have pos: "0 < x" by simp
  define ulp where "ulp = pow2 (max (ilog2 x) (- 126) - 23)"
  define m where "m = rne (x / ulp)"
  have ulp_pos: "0 < ulp" by (simp add: ulp_def pow2_pos)
  have "(of_int 0 :: rat) \<le> x / ulp" using pos ulp_pos by simp
  then have "0 \<le> m" unfolding m_def by (rule rne_ge)
  then have "0 \<le> of_int m * ulp" using ulp_pos by simp
  moreover have "f32 x = (if pow2 128 \<le> of_int m * ulp then PosInf else Finite (of_int m * ulp))"
    using pos by (simp add: f32_def Let_def ulp_def[symmetric] m_def[symmetric])
  ultimately show ?thesis by auto
qed

subsection \<open>Dictionaries\<close>

lemma dict_get_cong: "obj_id k = obj_id k' \<Longrightarrow> dict_get d k = dict_get d k'"
  by (induction d) auto

lemma dict_mem_cong: "obj_id k = obj_id k' \<Longrightarrow> dict_mem d k = dict_mem d k'"
  by (induction d) auto

lemma dict_mem_iff: "dict_mem d k \<longleftrightarrow> dict_get d k \<noteq> None"
  by (induction d) auto

lemma dict_get_dict_set:
  "dict_get (dict_set d k v) k' = (if obj_id k' = obj_id k then Some v else dict_get d k')"
  by (induction d) auto

lemma dict_set_entries:
  "(k, v) \<in> set (dict_set d k0 v0) \<Longrightarrow> (k, v) \<in> set d \<or> (v = v0 \<and> obj_id k = obj_id k0)"
  by (induction d) (auto split: if_splits)

lemma dict_set_keys:
  "(k, v) \<in> set (dict_set d k0 v0) \<Longrightarrow> k = k0 \<or> (\<exists>v'. (k, v') \<in> set d)"
  by (induction d) (auto split: if_splits)

lemma dict_set_key_ids:
  "set (map (obj_id \<circ> fst) (dict_set d k v)) = insert (obj_id k) (set (map (obj_id \<circ> fst) d))"
  by (induction d k v rule: dict_set.induct) (simp_all add: insert_commute insert_absorb)

lemma dict_set_distinct:
  "distinct (map (obj_id \<circ> fst) d) \<Longrightarrow> distinct (map (obj_id \<circ> fst) (dict_set d k v))"
proof (induction d)
  case Nil
  then show ?case by simp
next
  case (Cons p d)
  obtain k' v' where p: "p = (k', v')" by (cases p)
  show ?case
  proof (cases "obj_id k' = obj_id k")
    case True
    with Cons.prems p show ?thesis by simp
  next
    case False
    have "obj_id k' \<notin> set (map (obj_id \<circ> fst) (dict_set d k v))"
      using Cons.prems p False by (simp only: dict_set_key_ids) auto
    with Cons p False show ?thesis by simp
  qed
qed

lemma dict_get_distinct:
  "distinct (map (obj_id \<circ> fst) d) \<Longrightarrow> (k, v) \<in> set d \<Longrightarrow> obj_id k = obj_id k' \<Longrightarrow>
   dict_get d k' = Some v"
  by (induction d) (auto simp: image_iff)


lemma key_of_eq: "(obj_id (fst k') = obj_id (fst k) \<and> snd k' = snd k) = (key_of k' = key_of k)"
  by (simp add: key_of_def)

lemma area_set_alt:
  "area_set ((k', a') # d) k a =
     (if key_of k' = key_of k then (k', a) # d else (k', a') # area_set d k a)"
  unfolding key_of_eq[symmetric] by (rule area_set.simps)

lemma map_of_area_set:
  "map_of (map (\<lambda>(k, a). (key_of k, a)) (area_set d k a)) x =
   (if x = key_of k then Some a else map_of (map (\<lambda>(k, a). (key_of k, a)) d) x)"
proof (induction d)
  case Nil
  show ?case by simp
next
  case (Cons p d)
  obtain k' a' where p: "p = (k', a')" by (cases p)
  show ?case
    unfolding p area_set_alt using Cons.IH
    by (cases "key_of k' = key_of k") auto
qed

lemma area_of_area_set:
  "area_of (area_set d k a) i f = (if key_of k = (i, f) then Some a else area_of d i f)"
  unfolding area_of_def map_of_area_set by auto

lemma area_set_keys:
  "((k, f), ar) \<in> set (area_set d k0 a0) \<Longrightarrow>
   (\<exists>ar'. ((k, f), ar') \<in> set d) \<or> (k, f) = k0"
  by (induction d k0 a0 rule: area_set.induct) (fastforce split: if_splits)+

subsection \<open>Pixel counts\<close>

lemma inter_count_nonneg: "0 \<le> inter_count m1 m2"
  by (simp add: inter_count_def mask_sum_def)

lemma filter_map2_conj_le:
  "length (filter (\<lambda>b. b) (map2 (\<and>) m1 m2)) \<le> length (filter (\<lambda>b. b) m1)"
  by (induction m1 m2 rule: list_induct2') (auto simp: le_SucI)

lemma inter_count_le: "inter_count m1 m2 \<le> mask_sum m1"
  unfolding inter_count_def mask_sum_def of_nat_le_iff by (rule filter_map2_conj_le)

lemma inter_count_le2: "inter_count m1 m2 \<le> mask_sum m2"
  using inter_count_le[of m2 m1] by (simp add: inter_count_def map2_conj_commute)

lemma mask_sum_le_length: "mask_sum m \<le> int (length m)"
  by (simp add: mask_sum_def)

lemma small_count: "((of_int i :: rat) < 1 / 1000) = (i \<le> 0)"
proof
  assume "(of_int i :: rat) < 1 / 1000"
  then have "(of_int i :: rat) < 1" by simp
  then have "i < 1" by (simp only: of_int_less_1_iff)
  then show "i \<le> 0" by simp
next
  assume "i \<le> 0"
  then have "(of_int i :: rat) \<le> 0" by simp
  then show "(of_int i :: rat) < 1 / 1000" by simp
qed

lemma small_count_scaled: "((of_int i :: rat) * 1000 < 1) = (i \<le> 0)"
  using small_count[of i] by simp

lemma get_iou_counts:
  assumes "length m1 = length m2"
  shows "get_iou m1 m2 (mask_sum m1) (mask_sum m2) =
           Some (if inter_count m1 m2 = 0 then (Finite 0, None, None)
                 else (mask_iou32 m1 m2, Some (inter_count m1 m2),
                       Some (mask_sum m1 + mask_sum m2 - inter_count m1 m2)))"
proof -
  have mul: "mask_mul m1 m2 = Some (map2 (\<and>) m1 m2)"
    using assms by (simp add: mask_mul_def)
  have zero: "inter_count m1 m2 \<le> 0 \<longleftrightarrow> inter_count m1 m2 = 0"
    using inter_count_nonneg[of m1 m2] by linarith
  show ?thesis
    unfolding get_iou_def mul
    by (simp add: Let_def small_count_scaled zero mask_iou32_def inter_count_def[symmetric])
qed

lemma pair_iou_consistent:
  assumes "consistent t n our_obj m_new m_our"
  shows "pair_iou t n our_obj =
           Some (if inter_count m_new m_our = 0 then (Finite 0, None, None)
                 else (mask_iou32 m_new m_our, Some (inter_count m_new m_our),
                       Some (mask_sum m_new + mask_sum m_our - inter_count m_new m_our)))"
  using assms by (simp add: consistent_def pair_iou_def get_iou_counts)

lemma consistent_unique:
  "consistent t n our_obj m1 m2 \<Longrightarrow> consistent t n our_obj m1' m2' \<Longrightarrow> m1' = m1 \<and> m2' = m2"
  by (simp add: consistent_def)

lemma pair_iou_cong: "obj_id n = obj_id n' \<Longrightarrow> pair_iou t n our_obj = pair_iou t n' our_obj"
  by (simp add: pair_iou_def dict_get_cong[of n n'])

subsection \<open>The scans\<close>

lemma iou_scan_result:
  "iou_scan t st m n objs = Some (Some (our_obj, u)) \<Longrightarrow>
   our_obj \<in> set objs \<and> isthing our_obj = st \<and> \<not> dict_mem m our_obj \<and>
   (\<exists>iou i. pair_iou t n our_obj = Some (iou, i, Some u) \<and> f32_gt iou (Finite (1 / 2)))"
  by (induction objs) (auto split: if_splits bind_splits option.splits)

lemma engulf_scan_result:
  "engulf_scan t st thr n objs = Some (Match our_obj u) \<Longrightarrow>
   our_obj \<in> set objs \<and> isthing our_obj = st \<and>
   (\<exists>iou i. pair_iou t n our_obj = Some (iou, i, Some u) \<and> f32_gt iou (Finite (1 / 2)))"
  by (induction objs) (auto split: if_splits bind_splits option.splits)

lemma iou_scan_cong:
  assumes "obj_id n = obj_id n'"
  shows "iou_scan t st m n objs = iou_scan t st m n' objs"
proof -
  have a: "pair_iou t n our_obj = pair_iou t n' our_obj" for our_obj
    using assms by (rule pair_iou_cong)
  show ?thesis
    by (induction objs) (simp_all add: a cong: if_cong)
qed

lemma engulf_scan_cong:
  assumes "obj_id n = obj_id n'"
  shows "engulf_scan t st thr n objs = engulf_scan t st thr n' objs"
proof -
  have a: "pair_iou t n our_obj = pair_iou t n' our_obj" for our_obj
    using assms by (rule pair_iou_cong)
  have b: "dict_get (new_sums t) n = dict_get (new_sums t) n'"
    using assms by (rule dict_get_cong)
  show ?thesis
    by (induction objs) (simp_all add: a b cong: if_cong)
qed

subsection \<open>Invariants of the matching loops\<close>

lemma iou_match_append:
  "iou_match t st objs (xs @ ys) s = iou_match t st objs xs s \<bind> iou_match t st objs ys"
  by (induction xs arbitrary: s) (auto split: bind_splits)

lemma engulf_match_append:
  "engulf_match t st thr objs (xs @ ys) s =
     engulf_match t st thr objs xs s \<bind> engulf_match t st thr objs ys"
  by (induction xs arbitrary: s) (auto split: bind_splits)

lemma iou_match_invariant:
  assumes "iou_match t st objs segs s = Some s'" and "P s"
    and match: "\<And>s n our_obj u. P s \<Longrightarrow> n \<in> set segs \<Longrightarrow> isthing n = st \<Longrightarrow>
            iou_scan t st (our_to_new_matching s) n objs = Some (Some (our_obj, u)) \<Longrightarrow>
            P (add_match s our_obj n u)"
    and new: "\<And>s n s1. P s \<Longrightarrow> n \<in> set segs \<Longrightarrow> isthing n = st \<Longrightarrow>
            iou_scan t st (our_to_new_matching s) n objs = Some None \<Longrightarrow>
            add_new t s n = Some s1 \<Longrightarrow> P s1"
  shows "P s'"
  using assms
proof (induction segs arbitrary: s)
  case Nil
  then show ?case by simp
next
  case (Cons n segs)
  have IH: "P s'" if "iou_match t st objs segs s0 = Some s'" and "P s0" for s0
    using that
    apply (rule Cons.IH)
     apply (rule Cons.prems(3); simp)
    apply (rule Cons.prems(4); simp)
    done
  show ?case
  proof (cases "isthing n = st")
    case False
    with Cons.prems(1) have "iou_match t st objs segs s = Some s'" by simp
    then show ?thesis
      using Cons.prems(2) by (rule IH)
  next
    case True
    from Cons.prems(1) True obtain r s1 where
      r: "iou_scan t st (our_to_new_matching s) n objs = Some r" and
      s1: "(case r of Some (our_obj, uni) \<Rightarrow> Some (add_match s our_obj n uni)
            | None \<Rightarrow> add_new t s n) = Some s1" and
      rest: "iou_match t st objs segs s1 = Some s'"
      by (auto simp: bind_eq_Some_conv)
    have "P s1"
    proof (cases r)
      case None
      with r s1 Cons.prems(2) True show ?thesis
        using Cons.prems(4)[of s n s1] by simp
    next
      case (Some p)
      obtain our_obj u where p: "p = (our_obj, u)" by (cases p)
      with Some r s1 Cons.prems(2) True show ?thesis
        using Cons.prems(3)[of s n our_obj u] by auto
    qed
    with rest show ?thesis by (rule IH)
  qed
qed

lemma engulf_match_invariant:
  assumes "engulf_match t st thr objs segs s = Some s'" and "P s"
    and match: "\<And>s n our_obj u. P s \<Longrightarrow> n \<in> set segs \<Longrightarrow> isthing n = st \<Longrightarrow>
            engulf_scan t st thr n objs = Some (Match our_obj u) \<Longrightarrow>
            P (add_match s our_obj n u)"
    and new: "\<And>s n s1. P s \<Longrightarrow> n \<in> set segs \<Longrightarrow> isthing n = st \<Longrightarrow>
            engulf_scan t st thr n objs = Some Add \<Longrightarrow>
            add_new t s n = Some s1 \<Longrightarrow> P s1"
  shows "P s'"
  using assms
proof (induction segs arbitrary: s)
  case Nil
  then show ?case by simp
next
  case (Cons n segs)
  have IH: "P s'" if "engulf_match t st thr objs segs s0 = Some s'" and "P s0" for s0
    using that
    apply (rule Cons.IH)
     apply (rule Cons.prems(3); simp)
    apply (rule Cons.prems(4); simp)
    done
  show ?case
  proof (cases "isthing n = st")
    case False
    with Cons.prems(1) have "engulf_match t st thr objs segs s = Some s'" by simp
    then show ?thesis
      using Cons.prems(2) by (rule IH)
  next
    case True
    from Cons.prems(1) True obtain r s1 where
      r: "engulf_scan t st thr n objs = Some r" and
      s1: "(case r of Match our_obj uni \<Rightarrow> Some (add_match s our_obj n uni)
            | Drop \<Rightarrow> Some s | Add \<Rightarrow> add_new t s n) = Some s1" and
      rest: "engulf_match t st thr objs segs s1 = Some s'"
      by (auto simp: bind_eq_Some_conv)
    have "P s1"
    proof (cases r)
      case (Match our_obj u)
      with r s1 Cons.prems(2) True show ?thesis
        using Cons.prems(3)[of s n our_obj u] by auto
    next
      case Drop
      with s1 Cons.prems(2) show ?thesis by simp
    next
      case Add
      with r s1 Cons.prems(2) True show ?thesis
        using Cons.prems(4)[of s n s1] by simp
    qed
    with rest show ?thesis by (rule IH)
  qed
qed

lemma carry_over_invariant:
  assumes "carry_over t st objs s = Some s'" and "P s"
    and step: "\<And>s our_obj a. P s \<Longrightarrow> our_obj \<in> set objs \<Longrightarrow> isthing our_obj = st \<Longrightarrow>
            \<not> dict_mem (our_to_new_matching s) our_obj \<Longrightarrow>
            dict_get (our_sums t) our_obj = Some a \<Longrightarrow>
            P (s\<lparr>matched_area := area_set (matched_area s) (our_obj, False) a\<rparr>)"
  shows "P s'"
  using assms
proof (induction objs arbitrary: s)
  case Nil
  then show ?case by simp
next
  case (Cons our_obj objs)
  have IH: "P s'" if "carry_over t st objs s0 = Some s'" and "P s0" for s0
    using that by (rule Cons.IH) (rule Cons.prems(3); simp)
  show ?case
  proof (cases "isthing our_obj \<noteq> st \<or> dict_mem (our_to_new_matching s) our_obj")
    case True
    with Cons.prems(1) have "carry_over t st objs s = Some s'" by simp
    then show ?thesis using Cons.prems(2) by (rule IH)
  next
    case False
    with Cons.prems(1) obtain a where
      a: "dict_get (our_sums t) our_obj = Some a" and
      rest: "carry_over t st objs (s\<lparr>matched_area := area_set (matched_area s) (our_obj, False) a\<rparr>)
               = Some s'"
      by (auto simp: bind_eq_Some_conv)
    have "P (s\<lparr>matched_area := area_set (matched_area s) (our_obj, False) a\<rparr>)"
      using Cons.prems(2) False a by (intro Cons.prems(3)) simp_all
    with rest show ?thesis by (rule IH)
  qed
qed

lemma carry_over_matching:
  "carry_over t st objs s = Some s' \<Longrightarrow>
   our_to_new_matching s' = our_to_new_matching s \<and> new_objects s' = new_objects s"
  by (induction objs arbitrary: s) (auto split: if_splits bind_splits)

subsection \<open>The matching stays within the pass's category-type\<close>

lemma dict_set_pairs:
  "(k, v) \<in> set (dict_set d k0 v0) \<Longrightarrow>
   (k, v) \<in> set d \<or> (v = v0 \<and> (k = k0 \<or> (\<exists>v'. (k, v') \<in> set d)))"
  by (induction d) (auto split: if_splits)

lemma in_partition_empty: "in_partition st objs segs empty_matching"
  by (simp add: in_partition_def empty_matching_def)

lemma in_partition_add_match:
  assumes "in_partition st objs segs s" and "our_obj \<in> set objs" and "isthing our_obj = st"
    and "n \<in> set segs" and "isthing n = st"
  shows "in_partition st objs segs (add_match s our_obj n u)"
proof -
  have a: "our_obj' \<in> set objs \<and> isthing our_obj' = st \<and> n' \<in> set segs \<and> isthing n' = st"
    if "(our_obj', n') \<in> set (dict_set (our_to_new_matching s) our_obj n)" for our_obj' n'
    using dict_set_pairs[OF that] assms by (auto simp: in_partition_def)
  have b: "isthing k = st \<and> (if f then k \<in> set segs else k \<in> set objs)"
    if "((k, f), a) \<in> set (area_set (matched_area s) (our_obj, False) u)" for k f a
    using area_set_keys[OF that] assms by (auto simp: in_partition_def)
  show ?thesis
    using a b assms(1) by (auto simp: in_partition_def add_match_def)
qed

lemma in_partition_add_new:
  assumes "in_partition st objs segs s" and "n \<in> set segs" and "isthing n = st"
    and "add_new t s n = Some s1"
  shows "in_partition st objs segs s1"
proof -
  from assms(4) obtain a where
    s1: "s1 = s\<lparr>new_objects := new_objects s @ [n],
                 matched_area := area_set (matched_area s) (n, True) a\<rparr>"
    by (auto simp: add_new_def bind_eq_Some_conv)
  have b: "isthing k = st \<and> (if f then k \<in> set segs else k \<in> set objs)"
    if "((k, f), a') \<in> set (area_set (matched_area s) (n, True) a)" for k f a'
    using area_set_keys[OF that] assms by (auto simp: in_partition_def)
  show ?thesis
    using b assms(1,2,3) by (auto simp: in_partition_def s1)
qed

lemma in_partition_carry:
  assumes "in_partition st objs segs s" and "our_obj \<in> set objs" and "isthing our_obj = st"
  shows "in_partition st objs segs (s\<lparr>matched_area := area_set (matched_area s) (our_obj, False) a\<rparr>)"
proof -
  have b: "isthing k = st \<and> (if f then k \<in> set segs else k \<in> set objs)"
    if "((k, f), a') \<in> set (area_set (matched_area s) (our_obj, False) a)" for k f a'
    using area_set_keys[OF that] assms by (auto simp: in_partition_def)
  show ?thesis
    using b assms(1) by (auto simp: in_partition_def)
qed

lemma in_partition_iou_match:
  assumes "iou_match t st objs segs empty_matching = Some s"
  shows "in_partition st objs segs s"
  using assms
proof (rule iou_match_invariant)
  show "in_partition st objs segs empty_matching" by (rule in_partition_empty)
next
  fix s0 :: matching and n our_obj u
  assume "in_partition st objs segs s0" and "n \<in> set segs" and "isthing n = st"
    and "iou_scan t st (our_to_new_matching s0) n objs = Some (Some (our_obj, u))"
  then show "in_partition st objs segs (add_match s0 our_obj n u)"
    using iou_scan_result[of t st "our_to_new_matching s0" n objs our_obj u]
    by (intro in_partition_add_match) simp_all
next
  fix s0 :: matching and n s1
  assume "in_partition st objs segs s0" and "n \<in> set segs" and "isthing n = st"
    and "add_new t s0 n = Some s1"
  then show "in_partition st objs segs s1" by (rule in_partition_add_new)
qed

lemma in_partition_engulf_match:
  assumes "engulf_match t st thr objs segs empty_matching = Some s"
  shows "in_partition st objs segs s"
  using assms
proof (rule engulf_match_invariant)
  show "in_partition st objs segs empty_matching" by (rule in_partition_empty)
next
  fix s0 :: matching and n our_obj u
  assume "in_partition st objs segs s0" and "n \<in> set segs" and "isthing n = st"
    and "engulf_scan t st thr n objs = Some (Match our_obj u)"
  then show "in_partition st objs segs (add_match s0 our_obj n u)"
    using engulf_scan_result[of t st thr n objs our_obj u]
    by (intro in_partition_add_match) simp_all
next
  fix s0 :: matching and n s1
  assume "in_partition st objs segs s0" and "n \<in> set segs" and "isthing n = st"
    and "add_new t s0 n = Some s1"
  then show "in_partition st objs segs s1" by (rule in_partition_add_new)
qed

lemma in_partition_carry_over:
  assumes "carry_over t st objs s = Some s'" and "in_partition st objs segs s"
  shows "in_partition st objs segs s'"
  using assms
proof (rule carry_over_invariant)
  fix s0 :: matching and our_obj a
  assume "in_partition st objs segs s0" and "our_obj \<in> set objs" and "isthing our_obj = st"
  then show "in_partition st objs segs (s0\<lparr>matched_area := area_set (matched_area s0) (our_obj, False) a\<rparr>)"
    by (rule in_partition_carry)
qed

subsection \<open>Rendering\<close>



lemma set_sorted_by_area: "set (sorted_by_area area) = set area"
  by (simp add: sorted_by_area_def)

lemma render_entry_new:
  assumes "render_entry pol t m ((obj, True), a) (merged, om) = Some (merged', om')"
  shows "om' = fst (add_new_objects om obj) \<and>
         (\<exists>bmask. dict_get (new_masks t) obj = Some bmask \<and>
            mask_assign merged bmask (fresh_id (all_historical_object_ids om)) = Some merged')"
  using assms
  by (auto simp: render_entry_def add_new_objects_def Let_def bind_eq_Some_conv)

lemma render_entry_matched:
  assumes "render_entry pol t m ((obj, False), a) (merged, om) = Some (merged', om')"
    and "dict_mem m obj"
  shows "\<exists>n bmask bmask' merged1.
           dict_get m obj = Some n \<and> dict_get (our_masks t) obj = Some bmask \<and>
           mask_assign merged bmask (obj_id obj) = Some merged1 \<and>
           dict_get (new_masks t) n = Some bmask' \<and>
           mask_assign merged1 bmask' (obj_id obj) = Some merged' \<and>
           find_object_by_id om (obj_id obj) \<noteq> None \<and>
           om' = update_object om (obj_id obj) (\<lambda>x. unpoke (merge pol x n))"
  using assms
  by (auto simp: render_entry_def bind_eq_Some_conv simp del: find_object_by_id.simps)

lemma render_entry_carried:
  assumes "render_entry pol t m ((obj, False), a) (merged, om) = Some (merged', om')"
    and "\<not> dict_mem m obj"
  shows "\<exists>bmask. dict_get (our_masks t) obj = Some bmask \<and>
           mask_assign merged bmask (obj_id obj) = Some merged' \<and>
           find_object_by_id om (obj_id obj) \<noteq> None \<and>
           om' = update_object om (obj_id obj) poke"
  using assms
  by (auto simp: render_entry_def bind_eq_Some_conv simp del: find_object_by_id.simps)

lemma render_append:
  "render pol t m (xs @ ys) state = render pol t m xs state \<bind> render pol t m ys"
  by (induction xs arbitrary: state) (auto split: bind_splits)

subsection \<open>The registry across a pass\<close>

lemma cat_ids_update:
  assumes "\<And>x. obj_id (f x) = obj_id x \<and> isthing (f x) = isthing x"
  shows "cat_ids st (update_object om i f) = cat_ids st om"
proof -
  have a: "obj_id (f x) = obj_id x" "isthing (f x) = isthing x" for x
    using assms[of x] by simp_all
  have "map obj_id (filter (\<lambda>obj. isthing obj = st)
          (map fst (map (\<lambda>(obj, tmp). if obj_id obj = i then (f obj, tmp) else (obj, tmp)) xs))) =
        map obj_id (filter (\<lambda>obj. isthing obj = st) (map fst xs))" for xs :: "(ObjectInfo \<times> nat) list"
    by (induction xs) (simp_all add: a split: prod.split)
  then show ?thesis by (simp add: cat_ids_def update_object_def)
qed

lemma cat_ids_add_new:
  "cat_ids st (fst (add_new_objects om obj)) =
     cat_ids st om @ (if isthing obj = st then [fresh_id (all_historical_object_ids om)] else [])"
  by (simp add: cat_ids_def add_new_objects_def Let_def)

lemma render_entry_cat_ids:
  assumes "render_entry pol t m ((obj, is_new), a) (merged, om) = Some (merged', om')"
    and "is_new \<longrightarrow> isthing obj \<noteq> st"
  shows "cat_ids st om' = cat_ids st om"
proof (cases is_new)
  case True
  with assms show ?thesis
    using render_entry_new[of pol t m obj a merged om merged' om']
    by (simp add: cat_ids_add_new)
next
  case False
  have p: "cat_ids st (update_object om (obj_id obj) poke) = cat_ids st om"
    by (rule cat_ids_update) (simp add: poke_def)
  have u: "cat_ids st (update_object om (obj_id obj) (\<lambda>x. unpoke (merge pol x n))) = cat_ids st om"
    for n by (rule cat_ids_update) (simp add: unpoke_def merge_def)
  show ?thesis
  proof (cases "dict_mem m obj")
    case True
    with assms(1) False show ?thesis
      using render_entry_matched[of pol t m obj a merged om merged' om'] u by auto
  next
    case nm: False
    with assms(1) False show ?thesis
      using render_entry_carried[of pol t m obj a merged om merged' om'] p by auto
  qed
qed

lemma render_cat_ids:
  assumes "render pol t m es state = Some state'"
    and "\<forall>((obj, is_new), a) \<in> set es. is_new \<longrightarrow> isthing obj \<noteq> st"
  shows "cat_ids st (snd state') = cat_ids st (snd state)"
  using assms
proof (induction es arbitrary: state)
  case Nil
  then show ?case by simp
next
  case (Cons e es)
  from Cons.prems(1) obtain state1 where
    e: "render_entry pol t m e state = Some state1" and
    r: "render pol t m es state1 = Some state'"
    by (auto simp: bind_eq_Some_conv)
  obtain obj is_new a where ee: "e = ((obj, is_new), a)" by (cases e) auto
  have "cat_ids st (snd state1) = cat_ids st (snd state)"
    using e Cons.prems(2) render_entry_cat_ids[of pol t m obj is_new a "fst state" "snd state"
        "fst state1" "snd state1" st]
    by (simp add: ee)
  moreover have "cat_ids st (snd state') = cat_ids st (snd state1)"
    using r Cons.prems(2) by (intro Cons.IH) auto
  ultimately show ?case by simp
qed

lemma in_partition_other_category:
  assumes "in_partition st' objs segs s" and "st \<noteq> st'"
  shows "\<forall>((obj, is_new), a) \<in> set (sorted_by_area (matched_area s)). is_new \<longrightarrow> isthing obj \<noteq> st"
  using assms by (auto simp: in_partition_def set_sorted_by_area)

lemma merge_by_engulf_cat_ids:
  assumes "merge_by_engulf pol t merged om segs st' thr = Some state'" and "st \<noteq> st'"
  shows "cat_ids st (snd state') = cat_ids st om"
proof -
  from assms(1) obtain s1 s2 where
    m: "engulf_match t st' thr (map fst (obj_to_tmp_id om)) segs empty_matching = Some s1" and
    c: "carry_over t st' (map fst (obj_to_tmp_id om)) s1 = Some s2" and
    r: "render pol t (our_to_new_matching s2) (sorted_by_area (matched_area s2)) (merged, om)
          = Some state'"
    by (auto simp: merge_by_engulf_def bind_eq_Some_conv)
  have "in_partition st' (map fst (obj_to_tmp_id om)) segs s2"
    using c in_partition_engulf_match[OF m] by (rule in_partition_carry_over)
  from render_cat_ids[OF r in_partition_other_category[OF this assms(2)]] show ?thesis by simp
qed

lemma merge_by_iou_cat_ids:
  assumes "merge_by_iou pol t merged om segs st' = Some state'" and "st \<noteq> st'"
  shows "cat_ids st (snd state') = cat_ids st om"
proof -
  from assms(1) obtain s1 s2 where
    m: "iou_match t st' (map fst (obj_to_tmp_id om)) segs empty_matching = Some s1" and
    c: "carry_over t st' (map fst (obj_to_tmp_id om)) s1 = Some s2" and
    r: "render pol t (our_to_new_matching s2) (sorted_by_area (matched_area s2)) (merged, om)
          = Some state'"
    by (auto simp: merge_by_iou_def bind_eq_Some_conv)
  have "in_partition st' (map fst (obj_to_tmp_id om)) segs s2"
    using c in_partition_iou_match[OF m] by (rule in_partition_carry_over)
  from render_cat_ids[OF r in_partition_other_category[OF this assms(2)]] show ?thesis by simp
qed

subsection \<open>The frame\<close>




subsection \<open>Where the pixels of a pass come from\<close>








subsection \<open>First match in the IoU mode\<close>

lemma ex_obj_simps: "obj_id ex_obj = 7" "isthing ex_obj = Some True"
  by (simp_all add: ex_obj_def)

lemma ex_cand_simps: "obj_id ex_cand = 3" "isthing ex_cand = Some True"
  by (simp_all add: ex_cand_def)

lemma ex_obj2_simps: "obj_id ex_obj2 = 9" "isthing ex_obj2 = Some True"
  by (simp_all add: ex_obj2_def)

lemma mask_sum_replicate: "mask_sum (replicate n b) = (if b then int n else 0)"
  by (simp add: mask_sum_def)

lemma mask_sum_append: "mask_sum (xs @ ys) = mask_sum xs + mask_sum ys"
  by (simp add: mask_sum_def)

lemma map2_conj_all: "length m = n \<Longrightarrow> map2 (\<and>) (replicate n True) m = m"
  by (induction m arbitrary: n) auto

lemma big_length: "length big_new = 33554433" "length big_our = 33554433"
  by (simp_all only: big_new_def big_our_def length_replicate length_append)

lemma big_sums: "mask_sum big_new = 33554433" "mask_sum big_our = 16777217"
  by (simp_all only: big_new_def big_our_def mask_sum_replicate mask_sum_append if_True if_False)

lemma big_inter: "inter_count big_new big_our = 16777217"
proof -
  have "map2 (\<and>) big_new big_our = big_our"
    unfolding big_new_def using big_length(2) by (rule map2_conj_all)
  then show ?thesis by (simp only: inter_count_def big_sums)
qed

lemma big_iou: "mask_iou big_new big_our = 16777217 / 33554433"
  by (simp only: mask_iou_def big_inter big_sums) simp

lemma big_iou32: "mask_iou32 big_new big_our = Finite (1 / 2)"
proof -
  have "true_div 16777217 33554433 = Finite (1 / 2)" by code_simp
  then show ?thesis by (simp only: mask_iou32_def big_inter big_sums) simp
qed

lemma big_consistent: "consistent big_tables ex_cand ex_obj big_new big_our"
  by (simp add: consistent_def big_tables_def big_sums big_length)

lemma big_pair_iou:
  "pair_iou big_tables ex_cand ex_obj = Some (Finite (1 / 2), Some 16777217, Some 33554433)"
  by (simp add: pair_iou_consistent[OF big_consistent] big_inter big_iou32 big_sums)

text \<open>
  C4, as stated, fails where float32 cannot tell the IoU from 0.5. On a frame of 33554433
  pixels the candidate covers every pixel and the only object, of the same category-type
  and unmatched, covers 16777217 of them: the IoU is 16777217/33554433, above 0.5. Line 32
  divides the two counts in float32, where both round to powers of two and the quotient is
  exactly 0.5; the test of line 54 fails, the object is not matched and the candidate
  becomes a new object.
\<close>

theorem iou_first_match_counterexample:
  "consistent big_tables ex_cand ex_obj big_new big_our \<and>
   isthing ex_obj = Some True \<and> isthing ex_cand = Some True \<and>
   1 / 2 < mask_iou big_new big_our \<and>
   pair_iou big_tables ex_cand ex_obj = Some (Finite (1 / 2), Some 16777217, Some 33554433) \<and>
   iou_match big_tables (Some True) [ex_obj] [ex_cand] empty_matching =
     Some \<lparr>our_to_new_matching = [], matched_area = [((ex_cand, True), 33554433)],
           new_objects = [ex_cand]\<rparr>"
proof -
  have "iou_scan big_tables (Some True) [] ex_cand [ex_obj] = Some None"
    by (simp add: big_pair_iou ex_obj_simps)
  then have "iou_match big_tables (Some True) [ex_obj] [ex_cand] empty_matching =
     Some \<lparr>our_to_new_matching = [], matched_area = [((ex_cand, True), 33554433)],
           new_objects = [ex_cand]\<rparr>"
    by (simp add: empty_matching_def ex_cand_simps add_new_def big_tables_def
        del: iou_scan.simps)
  then show ?thesis
    using big_consistent big_pair_iou by (simp add: ex_obj_simps ex_cand_simps big_iou)
qed

lemma iou_scan_find:
  "iou_scan t st m n objs = Some r \<Longrightarrow> find (qualifies t st m n) objs = map_option fst r"
  by (induction objs) (auto simp: qualifies_def split: if_splits bind_splits option.splits)

lemma iou_match_keeps_match:
  assumes "iou_match t st objs segs s = Some s'"
    and "dict_get (our_to_new_matching s) our_obj = Some n"
    and "area_of (matched_area s) (obj_id our_obj) False = Some u"
  shows "dict_get (our_to_new_matching s') our_obj = Some n \<and>
         area_of (matched_area s') (obj_id our_obj) False = Some u"
  using assms(1)
proof (rule iou_match_invariant)
  show "dict_get (our_to_new_matching s) our_obj = Some n \<and>
        area_of (matched_area s) (obj_id our_obj) False = Some u"
    using assms(2,3) by simp
next
  fix s0 :: matching and c o' u'
  assume p: "dict_get (our_to_new_matching s0) our_obj = Some n \<and>
             area_of (matched_area s0) (obj_id our_obj) False = Some u"
    and sc: "iou_scan t st (our_to_new_matching s0) c objs = Some (Some (o', u'))"
  from iou_scan_result[OF sc] have "\<not> dict_mem (our_to_new_matching s0) o'" by simp
  moreover have "dict_mem (our_to_new_matching s0) our_obj"
    using p by (simp add: dict_mem_iff)
  ultimately have "obj_id o' \<noteq> obj_id our_obj"
    using dict_mem_cong[of o' our_obj "our_to_new_matching s0"] by auto
  then show "dict_get (our_to_new_matching (add_match s0 o' c u')) our_obj = Some n \<and>
             area_of (matched_area (add_match s0 o' c u')) (obj_id our_obj) False = Some u"
    using p by (auto simp: add_match_def dict_get_dict_set area_of_area_set key_of_def)
next
  fix s0 :: matching and c s1
  assume p: "dict_get (our_to_new_matching s0) our_obj = Some n \<and>
             area_of (matched_area s0) (obj_id our_obj) False = Some u"
    and "add_new t s0 c = Some s1"
  then show "dict_get (our_to_new_matching s1) our_obj = Some n \<and>
             area_of (matched_area s1) (obj_id our_obj) False = Some u"
    by (auto simp: add_new_def bind_eq_Some_conv area_of_area_set key_of_def)
qed

lemma iou_match_keeps_new:
  assumes "iou_match t st objs segs s = Some s'"
    and "n \<in> set (new_objects s)"
    and "dict_get (new_sums t) n = Some a"
    and "area_of (matched_area s) (obj_id n) True = Some a"
  shows "n \<in> set (new_objects s') \<and> area_of (matched_area s') (obj_id n) True = Some a"
  using assms(1)
proof (rule iou_match_invariant)
  show "n \<in> set (new_objects s) \<and> area_of (matched_area s) (obj_id n) True = Some a"
    using assms(2,4) by simp
next
  fix s0 :: matching and c o' u'
  assume "n \<in> set (new_objects s0) \<and> area_of (matched_area s0) (obj_id n) True = Some a"
  then show "n \<in> set (new_objects (add_match s0 o' c u')) \<and>
             area_of (matched_area (add_match s0 o' c u')) (obj_id n) True = Some a"
    by (auto simp: add_match_def area_of_area_set key_of_def)
next
  fix s0 :: matching and c s1
  assume p: "n \<in> set (new_objects s0) \<and> area_of (matched_area s0) (obj_id n) True = Some a"
    and a: "add_new t s0 c = Some s1"
  have "dict_get (new_sums t) c = Some a" if "obj_id c = obj_id n"
    using assms(3) dict_get_cong[OF that, of "new_sums t"] by simp
  with p a show "n \<in> set (new_objects s1) \<and> area_of (matched_area s1) (obj_id n) True = Some a"
    by (auto simp: add_new_def bind_eq_Some_conv area_of_area_set key_of_def)
qed

text \<open>
  C4, amended. In the IoU mode, take a candidate of the pass's category-type and the state
  of the loop when its turn comes. The existing objects are scanned in registry order, and
  the first one that is of the same category-type, not matched yet, and whose IoU with the
  candidate as computed in float32 exceeds 0.5 (\<open>qualifies\<close>) is the match: when the loop is
  over, the matching maps that object to the candidate and \<^verbatim>\<open>matched_area\<close> holds the union
  of the two masks for it. When no object qualifies, the candidate is a new object entry:
  it is in \<^verbatim>\<open>new_objects\<close> and \<^verbatim>\<open>matched_area\<close> holds its own pixel count under the new-object
  key. The statement is about a loop that raises nothing.
\<close>

theorem iou_first_match:
  assumes "iou_match t st objs (pre @ new_obj # post) empty_matching = Some s_final"
    and "isthing new_obj = st"
  shows "\<exists>s. iou_match t st objs pre empty_matching = Some s \<and>
           (case find (qualifies t st (our_to_new_matching s) new_obj) objs of
              Some our_obj \<Rightarrow>
                dict_get (our_to_new_matching s_final) our_obj = Some new_obj \<and>
                (\<exists>iou i uni. pair_iou t new_obj our_obj = Some (iou, i, Some uni) \<and>
                   area_of (matched_area s_final) (obj_id our_obj) False = Some uni)
            | None \<Rightarrow>
                new_obj \<in> set (new_objects s_final) \<and>
                (\<exists>a. dict_get (new_sums t) new_obj = Some a \<and>
                   area_of (matched_area s_final) (obj_id new_obj) True = Some a))"
proof -
  from assms(1) obtain s where
    pre: "iou_match t st objs pre empty_matching = Some s" and
    step: "iou_match t st objs (new_obj # post) s = Some s_final"
    by (auto simp: iou_match_append bind_eq_Some_conv)
  from step assms(2) obtain r s1 where
    r: "iou_scan t st (our_to_new_matching s) new_obj objs = Some r" and
    s1: "(case r of Some (our_obj, uni) \<Rightarrow> Some (add_match s our_obj new_obj uni)
          | None \<Rightarrow> add_new t s new_obj) = Some s1" and
    rest: "iou_match t st objs post s1 = Some s_final"
    by (auto simp: bind_eq_Some_conv)
  note f = iou_scan_find[OF r]
  show ?thesis
  proof (cases r)
    case None
    with s1 obtain a where a: "dict_get (new_sums t) new_obj = Some a" and
      s1': "s1 = s\<lparr>new_objects := new_objects s @ [new_obj],
                   matched_area := area_set (matched_area s) (new_obj, True) a\<rparr>"
      by (auto simp: add_new_def bind_eq_Some_conv)
    have "new_obj \<in> set (new_objects s_final) \<and>
          area_of (matched_area s_final) (obj_id new_obj) True = Some a"
      using rest _ a
      by (rule iou_match_keeps_new) (simp_all add: s1' area_of_area_set key_of_def)
    with None f a pre show ?thesis by auto
  next
    case (Some p)
    obtain our_obj uni where p: "p = (our_obj, uni)" by (cases p)
    from r Some p have sc: "iou_scan t st (our_to_new_matching s) new_obj objs
                              = Some (Some (our_obj, uni))" by simp
    from iou_scan_result[OF sc] obtain iou i where
      pi: "pair_iou t new_obj our_obj = Some (iou, i, Some uni)" by auto
    from s1 Some p have s1': "s1 = add_match s our_obj new_obj uni" by simp
    have "dict_get (our_to_new_matching s_final) our_obj = Some new_obj \<and>
          area_of (matched_area s_final) (obj_id our_obj) False = Some uni"
      using rest
      by (rule iou_match_keeps_match)
         (simp_all add: s1' add_match_def dict_get_dict_set area_of_area_set key_of_def)
    with Some p f pi pre show ?thesis by auto
  qed
qed

lemma ex_pair_iou2:
  "pair_iou ex_tables2 ex_cand ex_obj2 = Some (Finite (3 / 4), Some 3, Some 4)"
  "pair_iou ex_tables2 ex_cand ex_obj = Some (Finite 1, Some 3, Some 3)"
  by code_simp+

lemma ex_pair_iou4: "pair_iou ex_tables4 ex_cand ex_obj = Some (Finite (1 / 4), Some 1, Some 4)"
  by code_simp

lemma ex_iou_match2:
  "iou_match ex_tables2 (Some True) [ex_obj2, ex_obj] [ex_cand] empty_matching =
     Some \<lparr>our_to_new_matching = [(ex_obj2, ex_cand)], matched_area = [((ex_obj2, False), 4)],
           new_objects = []\<rparr>"
  by (simp add: ex_pair_iou2 ex_obj2_simps ex_cand_simps empty_matching_def add_match_def)

lemma ex_new_sums4: "dict_get (new_sums ex_tables4) ex_cand = Some 2"
  by (simp add: ex_tables4_def)

lemma ex_iou_match4:
  "iou_match ex_tables4 (Some True) [ex_obj] [ex_cand] empty_matching =
     Some \<lparr>our_to_new_matching = [], matched_area = [((ex_cand, True), 2)],
           new_objects = [ex_cand]\<rparr>"
  by (simp add: ex_pair_iou4 ex_obj_simps ex_cand_simps empty_matching_def add_new_def
      ex_new_sums4)

text \<open>
  In the first example two objects qualify for the candidate, with IoU 3/4 and 1; the first
  in registry order is matched, not the better one. In the second example the only object
  has IoU 1/4 and the candidate becomes a new object.
\<close>

theorem iou_first_match_witness:
  "iou_match ex_tables2 (Some True) [ex_obj2, ex_obj] ([] @ ex_cand # []) empty_matching =
     Some \<lparr>our_to_new_matching = [(ex_obj2, ex_cand)], matched_area = [((ex_obj2, False), 4)],
           new_objects = []\<rparr> \<and>
   isthing ex_cand = Some True \<and>
   qualifies ex_tables2 (Some True) [] ex_cand ex_obj2 \<and>
   qualifies ex_tables2 (Some True) [] ex_cand ex_obj \<and>
   find (qualifies ex_tables2 (Some True) [] ex_cand) [ex_obj2, ex_obj] = Some ex_obj2 \<and>
   iou_match ex_tables4 (Some True) [ex_obj] ([] @ ex_cand # []) empty_matching =
     Some \<lparr>our_to_new_matching = [], matched_area = [((ex_cand, True), 2)],
           new_objects = [ex_cand]\<rparr> \<and>
   find (qualifies ex_tables4 (Some True) [] ex_cand) [ex_obj] = None"
proof -
  have m2: "iou_match ex_tables2 (Some True) [ex_obj2, ex_obj] ([] @ ex_cand # [])
              empty_matching =
            Some \<lparr>our_to_new_matching = [(ex_obj2, ex_cand)],
                  matched_area = [((ex_obj2, False), 4)], new_objects = []\<rparr>"
    using ex_iou_match2 by simp
  have m4: "iou_match ex_tables4 (Some True) [ex_obj] ([] @ ex_cand # []) empty_matching =
            Some \<lparr>our_to_new_matching = [], matched_area = [((ex_cand, True), 2)],
                  new_objects = [ex_cand]\<rparr>"
    using ex_iou_match4 by simp
  have c: "isthing ex_cand = Some True" by (simp add: ex_cand_simps)
  have q: "qualifies ex_tables2 (Some True) [] ex_cand ex_obj2"
    "qualifies ex_tables2 (Some True) [] ex_cand ex_obj"
    "\<not> qualifies ex_tables4 (Some True) [] ex_cand ex_obj"
    by (simp_all add: qualifies_def ex_pair_iou2 ex_pair_iou4 ex_obj_simps ex_obj2_simps)
  show ?thesis
    using iou_first_match[OF m2 c] iou_first_match[OF m4 c] m2 m4 c q
    by (simp del: iou_match.simps iou_scan.simps)
qed

subsection \<open>Discarding in the engulf mode\<close>

lemma union_count_le:
  "length m1 = length m2 \<Longrightarrow> mask_sum m1 + mask_sum m2 - inter_count m1 m2 \<le> int (length m1)"
  unfolding mask_sum_def inter_count_def
  by (induction m1 m2 rule: list_induct2) auto

lemma consistent_cong:
  "obj_id our_obj = obj_id our_obj' \<Longrightarrow>
   consistent t n our_obj m_new m_our = consistent t n our_obj' m_new m_our"
  by (simp add: consistent_def dict_get_cong[of our_obj our_obj'])

lemma mask_iou32_pos:
  assumes "inter_count m1 m2 \<noteq> 0" and "length m1 = length m2" and "int (length m1) < 2 ^ 63"
  shows "f32_gt (mask_iou32 m1 m2) (Finite 0)"
proof -
  have i: "1 \<le> inter_count m1 m2"
    using assms(1) inter_count_nonneg[of m1 m2] by linarith
  have "inter_count m1 m2 \<le> int (length m1)"
    using inter_count_le[of m1 m2] mask_sum_le_length[of m1] by linarith
  then have i2: "inter_count m1 m2 < 2 ^ 63" using assms(3) by linarith
  have u: "1 \<le> mask_sum m1 + mask_sum m2 - inter_count m1 m2"
    using i inter_count_le[of m1 m2] inter_count_le2[of m1 m2] by linarith
  have u2: "mask_sum m1 + mask_sum m2 - inter_count m1 m2 < 2 ^ 63"
    using union_count_le[OF assms(2)] assms(3) by linarith
  show ?thesis
    using assms(1) true_div_pos[OF i i2 u u2] by (simp add: mask_iou32_def)
qed

lemma f32_count_ge:
  assumes "1 \<le> i"
  shows "f32 (of_int i) = PosInf \<or> (\<exists>y. f32 (of_int i) = Finite y \<and> 1 \<le> y)"
proof -
  have "(0 :: rat) < of_int i" and "pow2 0 \<le> of_int i"
    using assms by (simp_all add: pow2_def)
  from f32_lower[OF this] show ?thesis by (simp add: pow2_def)
qed

lemma coverage32_zero:
  assumes "inter_count m_new m_our = 0" and "0 \<le> thr"
  shows "\<not> f32_gt (coverage32 m_new m_our) (f32 thr)"
proof -
  have s: "0 \<le> mask_sum m_new" by (simp add: mask_sum_def)
  have z: "f32 0 = Finite 0" by (simp add: f32_def)
  have c: "coverage32 m_new m_our = NaN \<or> coverage32 m_new m_our = Finite 0"
  proof (cases "mask_sum m_new = 0")
    case True
    then show ?thesis by (simp add: coverage32_def assms(1) true_div_def z)
  next
    case False
    with s have "1 \<le> mask_sum m_new" by linarith
    from f32_count_ge[OF this] show ?thesis
      by (auto simp: coverage32_def assms(1) true_div_def z)
  qed
  from f32_nonneg[OF assms(2)] c show ?thesis by auto
qed

lemma engulf_scan_step:
  assumes "consistent t n our_obj m_new m_our" and "isthing our_obj = st"
    and "\<not> f32_gt (mask_iou32 m_new m_our) (Finite (1 / 2))" and "0 \<le> thr"
  shows "engulf_scan t st thr n (our_obj # rest) =
           (if f32_gt (coverage32 m_new m_our) (f32 thr) then Some Drop
            else engulf_scan t st thr n rest)"
proof (cases "inter_count m_new m_our = 0")
  case True
  then show ?thesis
    using assms(2) coverage32_zero[OF True assms(4)]
    by (simp add: pair_iou_consistent[OF assms(1)])
next
  case False
  have ns: "dict_get (new_sums t) n = Some (mask_sum m_new)"
    using assms(1) by (simp add: consistent_def)
  have "f32_gt (mask_iou32 m_new m_our) (Finite 0)"
    using False assms(1) by (intro mask_iou32_pos) (simp_all add: consistent_def)
  then show ?thesis
    using False assms(2,3)
    by (simp add: pair_iou_consistent[OF assms(1)] ns coverage32_def)
qed

lemma engulfed_drop:
  assumes "0 \<le> thr" and "engulfed t thr n objs"
  shows "engulf_scan t (isthing n) thr n objs = Some Drop"
proof -
  have "engulf_scan t (isthing n) thr n objs = Some Drop"
    if "\<forall>our_obj \<in> set objs. isthing our_obj = isthing n \<longrightarrow>
           (\<exists>m_new m_our. consistent t n our_obj m_new m_our \<and>
                           \<not> f32_gt (mask_iou32 m_new m_our) (Finite (1 / 2)))"
      and "\<exists>our_obj \<in> set objs. isthing our_obj = isthing n \<and>
           (\<exists>m_new m_our. consistent t n our_obj m_new m_our \<and>
                           f32_gt (coverage32 m_new m_our) (f32 thr))"
    using that
  proof (induction objs)
    case Nil
    then show ?case by simp
  next
    case (Cons our_obj objs)
    show ?case
    proof (cases "isthing our_obj = isthing n")
      case False
      with Cons show ?thesis by auto
    next
      case True
      with Cons.prems(1) obtain m_new m_our where
        c: "consistent t n our_obj m_new m_our" and
        i: "\<not> f32_gt (mask_iou32 m_new m_our) (Finite (1 / 2))"
        by auto
      note step = engulf_scan_step[OF c True i assms(1), of objs]
      show ?thesis
      proof (cases "f32_gt (coverage32 m_new m_our) (f32 thr)")
        case True
        with step show ?thesis by simp
      next
        case False
        have "\<exists>o' \<in> set objs. isthing o' = isthing n \<and>
                (\<exists>m_new m_our. consistent t n o' m_new m_our \<and>
                                f32_gt (coverage32 m_new m_our) (f32 thr))"
          using Cons.prems(2) False consistent_unique[OF c] by auto
        with Cons.IH Cons.prems(1) have "engulf_scan t (isthing n) thr n objs = Some Drop"
          by simp
        with False step show ?thesis by simp
      qed
    qed
  qed
  with assms(2) show ?thesis by (simp add: engulfed_def)
qed

lemma engulfed_transfer:
  assumes "engulfed t thr n objs"
    and "set (map obj_id (filter (\<lambda>obj. isthing obj = isthing n) objs')) =
         set (map obj_id (filter (\<lambda>obj. isthing obj = isthing n) objs))"
  shows "engulfed t thr n objs'"
proof -
  have a: "\<exists>ob \<in> set ys. isthing ob = isthing n \<and> obj_id ob = obj_id o'"
    if "o' \<in> set xs" and "isthing o' = isthing n"
      and "set (map obj_id (filter (\<lambda>obj. isthing obj = isthing n) xs)) =
           set (map obj_id (filter (\<lambda>obj. isthing obj = isthing n) ys))"
    for o' and xs ys :: "ObjectInfo list"
  proof -
    have "obj_id o' \<in> set (map obj_id (filter (\<lambda>obj. isthing obj = isthing n) xs))"
      using that(1,2) by auto
    with that(3) have "obj_id o' \<in> set (map obj_id (filter (\<lambda>obj. isthing obj = isthing n) ys))"
      by simp
    then show ?thesis by auto
  qed
  have 1: "\<exists>m_new m_our. consistent t n o' m_new m_our \<and>
                           \<not> f32_gt (mask_iou32 m_new m_our) (Finite (1 / 2))"
    if "o' \<in> set objs'" and "isthing o' = isthing n" for o'
  proof -
    from a[OF that assms(2)] obtain ob where
      o: "ob \<in> set objs" "isthing ob = isthing n" "obj_id ob = obj_id o'" by auto
    with assms(1) obtain m_new m_our where
      "consistent t n ob m_new m_our" "\<not> f32_gt (mask_iou32 m_new m_our) (Finite (1 / 2))"
      by (auto simp: engulfed_def)
    then show ?thesis using consistent_cong[OF o(3), of t n] by auto
  qed
  from assms(1) obtain ob m_new m_our where
    o: "ob \<in> set objs" "isthing ob = isthing n" "consistent t n ob m_new m_our"
      "f32_gt (coverage32 m_new m_our) (f32 thr)"
    by (auto simp: engulfed_def)
  from a[OF o(1,2) assms(2)[symmetric]] obtain o' where
    o': "o' \<in> set objs'" "isthing o' = isthing n" "obj_id o' = obj_id ob" by auto
  have "consistent t n o' m_new m_our"
    using o(3) consistent_cong[OF o'(3), of t n] by simp
  with o' o(4) 1 show ?thesis by (auto simp: engulfed_def)
qed

lemma engulf_match_without:
  assumes "isthing c = st \<Longrightarrow> engulf_scan t st thr c objs = Some Drop"
  shows "engulf_match t st thr objs segs = engulf_match t st thr objs (without c segs)"
proof (induction segs)
  case Nil
  show ?case by (simp add: without_def)
next
  case (Cons x segs)
  note IH = Cons.IH
  show ?case
  proof (cases "obj_id x = obj_id c \<and> isthing x = isthing c")
    case False
    then have w: "without c (x # segs) = x # without c segs" by (auto simp: without_def)
    show ?thesis unfolding w by (intro ext) (simp add: IH)
  next
    case True
    then have w: "without c (x # segs) = without c segs" by (simp add: without_def)
    have "engulf_match t st thr objs (x # segs) s = engulf_match t st thr objs segs s" for s
    proof (cases "isthing x = st")
      case False
      then show ?thesis by simp
    next
      case st: True
      with True assms have "engulf_scan t st thr c objs = Some Drop" by simp
      with True have "engulf_scan t st thr x objs = Some Drop"
        using engulf_scan_cong[of x c t st thr objs] by simp
      with st show ?thesis by simp
    qed
    then show ?thesis unfolding w by (intro ext) (simp only: IH)
  qed
qed

lemma merge_by_engulf_without:
  assumes "isthing c = st \<Longrightarrow> engulf_scan t st thr c (map fst (obj_to_tmp_id om)) = Some Drop"
  shows "merge_by_engulf pol t merged om segs st thr =
         merge_by_engulf pol t merged om (without c segs) st thr"
  using engulf_match_without[OF assms, of segs] by (simp add: merge_by_engulf_def)

lemma merge_partitions_without:
  assumes "0 \<le> thr" and "distinct sts"
    and "isthing c \<in> set sts \<Longrightarrow> engulfed t thr c (map fst (obj_to_tmp_id (snd state)))"
  shows "merge_partitions pol t segs ''engulf'' thr sts state =
         merge_partitions pol t (without c segs) ''engulf'' thr sts state"
  using assms(2,3)
proof (induction sts arbitrary: state)
  case Nil
  show ?case by simp
next
  case (Cons st sts)
  have pass: "merge_by_engulf pol t (fst state) (snd state) segs st thr =
              merge_by_engulf pol t (fst state) (snd state) (without c segs) st thr"
  proof (rule merge_by_engulf_without)
    assume "isthing c = st"
    then show "engulf_scan t st thr c (map fst (obj_to_tmp_id (snd state))) = Some Drop"
      using engulfed_drop[OF assms(1), of t c "map fst (obj_to_tmp_id (snd state))"]
        Cons.prems(2) by auto
  qed
  have rest: "merge_partitions pol t segs ''engulf'' thr sts state' =
              merge_partitions pol t (without c segs) ''engulf'' thr sts state'"
    if "merge_by_engulf pol t (fst state) (snd state) (without c segs) st thr = Some state'"
    for state'
  proof (rule Cons.IH)
    show "distinct sts" using Cons.prems(1) by simp
  next
    assume m: "isthing c \<in> set sts"
    with Cons.prems(1) have ne: "isthing c \<noteq> st" by auto
    from m have e: "engulfed t thr c (map fst (obj_to_tmp_id (snd state)))"
      using Cons.prems(2) by simp
    have "cat_ids (isthing c) (snd state') = cat_ids (isthing c) (snd state)"
      using that ne by (rule merge_by_engulf_cat_ids)
    then show "engulfed t thr c (map fst (obj_to_tmp_id (snd state')))"
      using e by (intro engulfed_transfer[OF e]) (simp add: cat_ids_def)
  qed
  show ?case
    by (simp add: pass) (rule Option.bind_cong, simp, rule rest)
qed

text \<open>
  C5, as stated, fails where float32 cannot tell the coverage fraction from the threshold.
  On a frame of six pixels the only object covers the first four and the candidate, of the
  same category-type, the last three: the IoU is 1/6 and the intersection covers 1/3 of the
  candidate, more than the threshold 0.33333333209.... In float32 the quotient of line 119
  and the threshold round to the same value, the test fails, and the candidate is not
  discarded: it becomes the new object of identity 8 and its three pixels carry that
  identity in the output.
\<close>

theorem engulf_discard_counterexample:
  "isthing ex_obj = isthing ex_cand \<and> (0 :: rat) \<le> thr_third \<and>
   mask_iou (mask_eq [0, 0, 0, 3, 3, 3] 3) (mask_eq [1, 1, 1, 1, 0, 0] 1) \<le> 1 / 2 \<and>
   thr_third < coverage (mask_eq [0, 0, 0, 3, 3, 3] 3) (mask_eq [1, 1, 1, 1, 0, 0] 1) \<and>
   merge_frame (\<lambda>a b. b) [1, 1, 1, 1, 0, 0] [0, 0, 0, 3, 3, 3] ex_om [ex_cand] ''engulf'' (- 1)
     thr_third = Some (([7, 7, 7, 8, 8, 8], ex_om_grown), [])"
proof -
  have "mask_iou (mask_eq [0, 0, 0, 3, 3, 3] 3) (mask_eq [1, 1, 1, 1, 0, 0] 1) = 1 / 6"
    by (simp add: mask_iou_def mask_eq_def inter_count_def mask_sum_def)
  moreover have "coverage (mask_eq [0, 0, 0, 3, 3, 3] 3) (mask_eq [1, 1, 1, 1, 0, 0] 1) = 1 / 3"
    by (simp add: coverage_def mask_eq_def inter_count_def mask_sum_def)
  moreover have "merge_frame (\<lambda>a b. b) [1, 1, 1, 1, 0, 0] [0, 0, 0, 3, 3, 3] ex_om [ex_cand]
      ''engulf'' (- 1) thr_third = Some (([7, 7, 7, 8, 8, 8], ex_om_grown), [])"
    by code_simp
  ultimately show ?thesis
    by (simp add: ex_obj_simps ex_cand_simps thr_third_def)
qed

text \<open>
  C5, amended. In the engulf mode, take a candidate for which the float32 IoU with every
  existing object of its category-type is not above 0.5, while with one of them the float32
  quotient of the intersection by the candidate's own pixel count is above the threshold
  as float32 (\<open>engulfed\<close>, on the registry before the three passes; the threshold is not
  negative, as the interface requires). Then the scan of the candidate breaks to drop it,
  and the three passes give the same mask and the same registry as the three passes over the
  candidate list without that candidate (\<open>without\<close>): no pixel is written for it, it is
  merged into no object and it creates no object.
\<close>

theorem engulfed_candidate_discarded:
  assumes "0 \<le> engulf_threshold"
    and "engulfed t engulf_threshold new_obj (map fst (obj_to_tmp_id om))"
  shows "engulf_scan t (isthing new_obj) engulf_threshold new_obj (map fst (obj_to_tmp_id om))
           = Some Drop \<and>
         merge_partitions pol t segs ''engulf'' engulf_threshold match_isthing (merged_mask, om) =
         merge_partitions pol t (without new_obj segs) ''engulf'' engulf_threshold match_isthing
           (merged_mask, om)"
proof -
  have "distinct match_isthing" by (simp add: match_isthing_def)
  then have "merge_partitions pol t segs ''engulf'' engulf_threshold match_isthing
               (merged_mask, om) =
             merge_partitions pol t (without new_obj segs) ''engulf'' engulf_threshold
               match_isthing (merged_mask, om)"
    using assms(2) by (intro merge_partitions_without[OF assms(1)]) simp_all
  with engulfed_drop[OF assms] show ?thesis by simp
qed

lemma ex_engulfed: "engulfed ex_tables3 (1 / 5) ex_cand (map fst (obj_to_tmp_id ex_om))"
proof -
  have c: "consistent ex_tables3 ex_cand ex_obj [True, False, False, False, False]
             [True, True, True, True, False]"
    by (simp add: consistent_def ex_tables3_def mask_sum_def)
  have i: "\<not> f32_gt (mask_iou32 [True, False, False, False, False]
                        [True, True, True, True, False]) (Finite (1 / 2))"
    by code_simp
  have v: "f32_gt (coverage32 [True, False, False, False, False]
                     [True, True, True, True, False]) (f32 (1 / 5))"
    by code_simp
  have objs: "set (map fst (obj_to_tmp_id ex_om)) = {ex_obj}"
    by (simp add: ex_om_def)
  show ?thesis
    unfolding engulfed_def objs using c i v by (auto simp: ex_obj_simps ex_cand_simps)
qed

lemma ex_merge_no_candidates:
  "merge_partitions (\<lambda>a b. b) ex_tables3 [] ''engulf'' (1 / 5) match_isthing
     ([0, 0, 0, 0, 0], ex_om) = Some ([7, 7, 7, 7, 0], ex_om_poked)"
  by code_simp

text \<open>
  The object covers four pixels, the candidate one of them: the IoU is 1/4, the candidate is
  covered entirely, and the result is that of the frame without candidates.
\<close>

theorem engulfed_candidate_discarded_witness:
  "(0 :: rat) \<le> 1 / 5 \<and> engulfed ex_tables3 (1 / 5) ex_cand (map fst (obj_to_tmp_id ex_om)) \<and>
   without ex_cand [ex_cand] = [] \<and>
   engulf_scan ex_tables3 (isthing ex_cand) (1 / 5) ex_cand (map fst (obj_to_tmp_id ex_om))
     = Some Drop \<and>
   merge_partitions (\<lambda>a b. b) ex_tables3 [ex_cand] ''engulf'' (1 / 5) match_isthing
     ([0, 0, 0, 0, 0], ex_om) = Some ([7, 7, 7, 7, 0], ex_om_poked)"
proof -
  have h: "(0 :: rat) \<le> 1 / 5" by simp
  have w: "without ex_cand [ex_cand] = []" by (simp add: without_def)
  show ?thesis
    using engulfed_candidate_discarded[OF h ex_engulfed, of "\<lambda>a b. b" "[ex_cand]"
        "[0, 0, 0, 0, 0]"] ex_engulfed ex_merge_no_candidates
    by (simp only: w) simp
qed

subsection \<open>The three partitions\<close>



end
